theory Spec2Isabelle
  imports Main "HOL-Library.Sublist" "HOL-Library.Char_ord" "HOL-Library.List_Lexorder"
begin

section \<open>Library functions that proxy.go calls\<close>

subsection \<open>strings.Contains and strings.Split\<close>

text \<open>
  Go strings are byte sequences; they are modelled as \<open>string\<close> (a list of bytes).
  \<open>strings.Contains(s, substr)\<close> reports whether \<open>substr\<close> occurs in \<open>s\<close> at some
  position; the empty \<open>substr\<close> occurs in every \<open>s\<close>.
\<close>

fun Contains :: "string \<Rightarrow> string \<Rightarrow> bool" where
  "Contains [] substr = (substr = [])"
| "Contains (c # cs) substr = (prefix substr (c # cs) \<or> Contains cs substr)"

text \<open>
  \<open>strings.Split(s, sep)\<close> for a separator of one byte, the only kind the program uses
  (\<open>","\<close> in \<open>main\<close>, \<open>"-"\<close> in \<open>IsDenied\<close>): the pieces of \<open>s\<close> between the
  separators, always at least one piece.
\<close>

fun Split :: "string \<Rightarrow> char \<Rightarrow> string list" where
  "Split [] sep = [[]]"
| "Split (c # cs) sep =
     (if c = sep then [] # Split cs sep
      else (case Split cs sep of [] \<Rightarrow> [[c]] | x # xs \<Rightarrow> (c # x) # xs))"

subsection \<open>strconv.Atoi\<close>

datatype NumError = ErrSyntax | ErrRange

definition isDigit :: "char \<Rightarrow> bool" where
  "isDigit c = (48 \<le> (of_char c :: nat) \<and> (of_char c :: nat) \<le> 57)"

definition digitVal :: "char \<Rightarrow> nat" where
  "digitVal c = of_char c - 48"

definition maxUint64 :: nat where
  "maxUint64 = 2 ^ 64 - 1"

text \<open>
  The digit loop of \<open>strconv.ParseUint(s, 10, 64)\<close>: a byte that is not a decimal digit
  gives \<open>(0, ErrSyntax)\<close>; a value that no longer fits 64 bits gives
  \<open>(maxUint64, ErrRange)\<close> at once, before the remaining bytes are looked at.
  The accumulator is a \<open>nat\<close>; Go's test \<open>n1 < n || n1 > maxVal\<close> on the wrapped sum
  is the test \<open>n1 > maxUint64\<close> on the exact one.
\<close>

fun ParseUint_loop :: "nat \<Rightarrow> string \<Rightarrow> nat \<times> NumError option" where
  "ParseUint_loop n [] = (n, None)"
| "ParseUint_loop n (c # cs) =
     (if \<not> isDigit c then (0, Some ErrSyntax)
      else if n \<ge> maxUint64 div 10 + 1 then (maxUint64, Some ErrRange)
      else (let n1 = n * 10 + digitVal c
            in if n1 > maxUint64 then (maxUint64, Some ErrRange)
               else ParseUint_loop n1 cs))"

definition ParseUint :: "string \<Rightarrow> nat \<times> NumError option" where
  "ParseUint s = (if s = [] then (0, Some ErrSyntax) else ParseUint_loop 0 s)"

text \<open>\<open>strconv.ParseInt(s, 10, 0)\<close> with a 64-bit \<open>int\<close>.\<close>

definition ParseInt :: "string \<Rightarrow> int \<times> NumError option" where
  "ParseInt s =
     (if s = [] then (0, Some ErrSyntax)
      else
        let neg = (hd s = CHR ''-'');
            s1 = (if hd s = CHR ''+'' \<or> hd s = CHR ''-'' then tl s else s);
            (un, err) = ParseUint s1
        in if err = Some ErrSyntax then (0, Some ErrSyntax)
           else if \<not> neg \<and> un \<ge> 2 ^ 63 then (2 ^ 63 - 1, Some ErrRange)
           else if neg \<and> un > 2 ^ 63 then (- (2 ^ 63), Some ErrRange)
           else (if neg then - int un else int un, None))"

text \<open>
  \<open>strconv.Atoi(s)\<close> returns what \<open>ParseInt(s, 10, 0)\<close> returns (its fast path for
  short inputs computes the same value and error).
\<close>

definition Atoi :: "string \<Rightarrow> int \<times> NumError option" where
  "Atoi s = ParseInt s"

section \<open>The Redirector and IsDenied\<close>

text \<open>The struct \<open>Redirector\<close>, without the pointer to the proxy server.\<close>

record Redirector =
  Hosts :: "string list"
  Clocking :: bool
  ProxyAddr :: string
  WebAddr :: string
  Hours :: "string list"
  OrgDir :: string
  Blacklist :: string
  Blockmode :: bool

text \<open>The run-time panics the modelled code can raise.\<close>

datatype panic = IndexOutOfRange | NilDereference

text \<open>\<open>main\<close>: \<open>r.Hours = strings.Split(hours, ",")\<close>.\<close>

definition main_Hours :: "string \<Rightarrow> string list" where
  "main_Hours hours = Split hours CHR '',''"

text \<open>
  The first loop of \<open>IsDenied\<close>:
  \<open>found = found || strings.Contains(host, r.Hosts[i])\<close> for every index \<open>i\<close>.
\<close>

fun found_loop :: "string \<Rightarrow> string list \<Rightarrow> bool \<Rightarrow> bool" where
  "found_loop host [] found = found"
| "found_loop host (p # ps) found = found_loop host ps (found \<or> Contains host p)"

text \<open>
  The second loop of \<open>IsDenied\<close>, over \<open>r.Hours\<close>, with \<open>h\<close> the hour that
  \<open>time.Now().Clock()\<close> returned. \<open>hours[0]\<close> always exists; \<open>hours[1]\<close> panics with
  an index out of range when the token holds no \<open>-\<close>. The errors of \<open>Atoi\<close> are
  discarded (\<open>start, _ := ...\<close>).
\<close>

fun hours_loop :: "int \<Rightarrow> string list \<Rightarrow> bool \<Rightarrow> panic + bool" where
  "hours_loop h [] deny = Inr deny"
| "hours_loop h (t # ts) deny =
     (if t \<noteq> [] then
        (let hours = Split t CHR ''-''
         in if length hours < 2 then Inl IndexOutOfRange
            else
              let start = fst (Atoi (hours ! 0));
                  stop = fst (Atoi (hours ! 1))
              in hours_loop h ts (if h \<ge> start \<and> h \<le> stop then True else deny))
      else hours_loop h ts deny)"

definition IsDenied :: "Redirector \<Rightarrow> string \<Rightarrow> int \<Rightarrow> panic + bool" where
  "IsDenied r host h =
     (let found = found_loop host (Hosts r) False;
          deny = Blockmode r
      in case (if length (Hours r) > 0 then hours_loop h (Hours r) deny else Inr deny) of
           Inl p \<Rightarrow> Inl p
         | Inr deny \<Rightarrow> (let deny = (deny \<or> Clocking r) in Inr (found \<and> deny)))"

text \<open>
  The windows the second loop of \<open>IsDenied\<close> compares the hour with: the token split
  at \<open>-\<close>, its first two pieces read by \<open>Atoi\<close> with the errors dropped. A token
  with fewer than two pieces (the empty token, a token without \<open>-\<close>) has none.
\<close>

definition token_window :: "string \<Rightarrow> (int \<times> int) option" where
  "token_window t =
     (case Split t CHR ''-'' of
        a # b # rest \<Rightarrow> Some (fst (Atoi a), fst (Atoi b))
      | _ \<Rightarrow> None)"

text \<open>\<open>main\<close>: the \<open>Redirector\<close> as built from the command-line flags.\<close>

definition main_Redirector ::
  "string \<Rightarrow> string \<Rightarrow> string \<Rightarrow> string \<Rightarrow> bool \<Rightarrow> string \<Rightarrow> Redirector" where
  "main_Redirector proxy web blacklist orgdir blockmode hours =
     \<lparr>Hosts = [], Clocking = False, ProxyAddr = proxy, WebAddr = web,
      Hours = main_Hours hours, OrgDir = orgdir, Blacklist = blacklist,
      Blockmode = blockmode\<rparr>"

section \<open>Files and buffered line reading\<close>

text \<open>
  Go's \<open>error\<close> values that occur: \<open>io.EOF\<close>, \<open>filepath.SkipDir\<close>, and the errors
  of the operating system (a \<open>*PathError\<close> with its message). The \<open>nil\<close> error is
  \<open>None\<close> of \<open>error option\<close>.
\<close>

datatype error = EOF | SkipDir | PathError string

text \<open>
  An open file, as far as reading it in sequence shows it: the bytes it yields, then what
  ends the reading, \<open>io.EOF\<close> (\<open>None\<close>) or an error of the operating system with
  its message. The file system gives, for every path, the file that \<open>os.Open\<close> opens
  or the message of the \<open>*PathError\<close> it fails with.
\<close>

datatype File = File (contents: string) (read_err: "string option")

type_synonym filesystem = "string \<Rightarrow> string + File"

definition os_Open :: "filesystem \<Rightarrow> string \<Rightarrow> error + File" where
  "os_Open fs path = (case fs path of Inl msg \<Rightarrow> Inl (PathError msg) | Inr f \<Rightarrow> Inr f)"

text \<open>
  \<open>bufio.Reader\<close>: the bytes not yet consumed, the error of the underlying file, and
  the size of the buffer. \<open>bufio.NewReaderSize\<close> raises a size below 16 to 16.
\<close>

record Reader =
  src :: string
  src_err :: error
  bufsize :: nat

definition NewReaderSize :: "File \<Rightarrow> nat \<Rightarrow> Reader" where
  "NewReaderSize f n =
     \<lparr>src = contents f,
      src_err = (case read_err f of None \<Rightarrow> EOF | Some msg \<Rightarrow> PathError msg),
      bufsize = max n 16\<rparr>"

text \<open>
  \<open>(*bufio.Reader).ReadLine\<close>, returning \<open>(line, isPrefix, err)\<close> and the reader after
  the call. With nothing left it returns the file's error. A line whose bytes before the
  line feed fill the buffer comes back as a first chunk with \<open>isPrefix\<close> set (a carriage
  return at the end of the chunk is put back). Otherwise the line comes back without its
  line feed and without a carriage return before the line feed; the bytes after the last
  line feed, when there are some, are a last line.
\<close>

definition ReadLine :: "Reader \<Rightarrow> (string \<times> bool \<times> error option) \<times> Reader" where
  "ReadLine b =
     (if src b = [] then (([], False, Some (src_err b)), b)
      else
        let line = takeWhile (\<lambda>c. c \<noteq> CHR 0x0A) (src b);
            more = dropWhile (\<lambda>c. c \<noteq> CHR 0x0A) (src b)
        in if length line \<ge> bufsize b then
             (let chunk = take (bufsize b) (src b)
              in if last chunk = CHR 0x0D
                 then ((butlast chunk, True, None), b\<lparr>src := drop (bufsize b - 1) (src b)\<rparr>)
                 else ((chunk, True, None), b\<lparr>src := drop (bufsize b) (src b)\<rparr>))
           else if more = [] then ((line, False, None), b\<lparr>src := []\<rparr>)
           else ((if line \<noteq> [] \<and> last line = CHR 0x0D then butlast line else line,
                  False, None),
                 b\<lparr>src := tl more\<rparr>))"

text \<open>
  The loop that \<open>InitHosts\<close> and \<open>Visit\<close> share,
  \<^verbatim>\<open>for err == nil && !isPrefix { body(string(line)); line, isPrefix, err = reader.ReadLine() }\<close>,
  entered with the result of a first \<open>ReadLine\<close>. It returns the state with the last
  \<open>isPrefix\<close> and \<open>err\<close>.
\<close>

function read_loop ::
  "(string \<Rightarrow> 's \<Rightarrow> 's) \<Rightarrow> Reader \<Rightarrow> string \<times> bool \<times> error option \<Rightarrow> 's
     \<Rightarrow> 's \<times> bool \<times> error option" where
  "read_loop body b (line, isPrefix, err) s =
     (if err = None \<and> \<not> isPrefix then
        (let s' = body line s;
             (res, b') = ReadLine b
         in read_loop body b' res s')
      else (s, isPrefix, err))"
  by pat_completeness auto
termination
proof (relation "measure (\<lambda>(body, b, (line, isPrefix, err), s).
          2 * length (src b) + (if err = None \<and> \<not> isPrefix then 1 else 0))", goal_cases)
  case 1
  show ?case by simp
next
  case (2 body b line isPrefix err s x xa xb y)
  obtain l' p' e' where xb: "xb = (l', p', e')" by (cases xb)
  have rl: "ReadLine b = ((l', p', e'), y)" using 2 xb by simp
  have "2 * length (src y) + (if e' = None \<and> \<not> p' then 1 else 0) < 2 * length (src b) + 1"
  proof (cases "src b = []")
    case True
    then show ?thesis using rl by (auto simp: ReadLine_def)
  next
    case False
    define line where "line = takeWhile (\<lambda>c. c \<noteq> CHR 0x0A) (src b)"
    define more where "more = dropWhile (\<lambda>c. c \<noteq> CHR 0x0A) (src b)"
    have more_le: "length more \<le> length (src b)"
      unfolding more_def by (rule length_dropWhile_le)
    show ?thesis
    proof (cases "length line \<ge> bufsize b")
      case True
      then have "p' = True \<and> length (src y) \<le> length (src b)"
        using rl False unfolding ReadLine_def Let_def line_def [symmetric] more_def [symmetric]
        by (cases "last (take (bufsize b) (src b)) = CHR 0x0D") auto
      then show ?thesis by simp
    next
      case short: False
      show ?thesis
      proof (cases "more = []")
        case True
        then have "src y = []"
          using rl False short unfolding ReadLine_def Let_def line_def [symmetric] more_def [symmetric]
          by auto
        then show ?thesis using False by (cases "src b") auto
      next
        case nonempty: False
        then have "src y = tl more"
          using rl False short unfolding ReadLine_def Let_def line_def [symmetric] more_def [symmetric]
          by auto
        then have "length (src y) < length (src b)"
          using nonempty more_le by (cases more) auto
        then show ?thesis by simp
      qed
    qed
  qed
  then show ?case using 2 xb by simp
qed

text \<open>
  The lines of a file, for stating what the loops read: the pieces between the line
  feeds, each without a carriage return before its line feed, and the bytes after the last
  line feed as a last line when there are some.
\<close>

definition chomp :: "string \<Rightarrow> string" where
  "chomp l = (if l \<noteq> [] \<and> last l = CHR 0x0D then butlast l else l)"

definition file_lines :: "string \<Rightarrow> string list" where
  "file_lines bs =
     (let ps = Split bs CHR 0x0A
      in map chomp (butlast ps) @ (if last ps = [] then [] else [last ps]))"

text \<open>\<open>InitHosts\<close>: every line read from the blacklist file is appended to \<open>r.Hosts\<close>.\<close>

definition InitHosts :: "filesystem \<Rightarrow> Redirector \<Rightarrow> Redirector \<times> error option" where
  "InitHosts fs r =
     (case os_Open fs (Blacklist r) of
        Inl err \<Rightarrow> (r, Some err)
      | Inr f \<Rightarrow>
          let reader = NewReaderSize f (16 * 1024);
              (res, reader) = ReadLine reader;
              (r, isPrefix, err) = read_loop (\<lambda>s r. r\<lparr>Hosts := Hosts r @ [s]\<rparr>) reader res r
          in if isPrefix then (r, None)
             else if err \<noteq> Some EOF then (r, err)
             else (r, None))"

section \<open>Regular expressions\<close>

text \<open>
  The syntax trees of the three patterns the program gives to \<open>regexp.MatchString\<close>.
  Patterns and subjects are taken byte by byte; the patterns are ASCII, and \<open>.\<close> is any
  character but the line feed.
\<close>

datatype Regexp =
    NoMatch
  | EmptyMatch
  | Literal char
  | AnyCharNotNL
  | Concat Regexp Regexp
  | Alternate Regexp Regexp
  | Star Regexp

text \<open>A literal string is the concatenation of its characters.\<close>

primrec LiteralString :: "string \<Rightarrow> Regexp" where
  "LiteralString [] = EmptyMatch"
| "LiteralString (c # cs) = Concat (Literal c) (LiteralString cs)"

text \<open>Matching a whole string, by derivatives.\<close>

primrec nullable :: "Regexp \<Rightarrow> bool" where
  "nullable NoMatch = False"
| "nullable EmptyMatch = True"
| "nullable (Literal c) = False"
| "nullable AnyCharNotNL = False"
| "nullable (Concat r1 r2) = (nullable r1 \<and> nullable r2)"
| "nullable (Alternate r1 r2) = (nullable r1 \<or> nullable r2)"
| "nullable (Star r) = True"

primrec deriv :: "char \<Rightarrow> Regexp \<Rightarrow> Regexp" where
  "deriv x NoMatch = NoMatch"
| "deriv x EmptyMatch = NoMatch"
| "deriv x (Literal c) = (if x = c then EmptyMatch else NoMatch)"
| "deriv x AnyCharNotNL = (if x = CHR 0x0A then NoMatch else EmptyMatch)"
| "deriv x (Concat r1 r2) =
     (if nullable r1 then Alternate (Concat (deriv x r1) r2) (deriv x r2)
      else Concat (deriv x r1) r2)"
| "deriv x (Alternate r1 r2) = Alternate (deriv x r1) (deriv x r2)"
| "deriv x (Star r) = Concat (deriv x r) (Star r)"

primrec matches :: "Regexp \<Rightarrow> string \<Rightarrow> bool" where
  "matches r [] = nullable r"
| "matches r (c # cs) = matches (deriv c r) cs"

text \<open>
  \<open>regexp.MatchString(pattern, s)\<close> reports whether \<open>s\<close> contains any match of the
  pattern: whether some piece of \<open>s\<close> between two positions matches. The patterns of
  the program compile, so the error it also returns is always \<open>nil\<close>.
\<close>

definition MatchString :: "Regexp \<Rightarrow> string \<Rightarrow> bool" where
  "MatchString pattern s = list_ex (\<lambda>t. list_ex (matches pattern) (prefixes t)) (suffixes s)"

text \<open>The pattern \<^verbatim>\<open>\.org\<close> of \<open>Visit\<close>.\<close>

definition pattern_org :: Regexp where
  "pattern_org = LiteralString ''.org''"

text \<open>The pattern \<^verbatim>\<open>.*CLOCK:.*\<close> of \<open>Visit\<close>.\<close>

definition pattern_clock :: Regexp where
  "pattern_clock =
     Concat (Star AnyCharNotNL) (Concat (LiteralString ''CLOCK:'') (Star AnyCharNotNL))"

text \<open>The pattern \<^verbatim>\<open>.*CLOCK:.*--.*=>.*\<close> of \<open>Visit\<close>.\<close>

definition pattern_ended :: Regexp where
  "pattern_ended =
     Concat (Star AnyCharNotNL) (Concat (LiteralString ''CLOCK:'')
       (Concat (Star AnyCharNotNL) (Concat (LiteralString ''--'')
         (Concat (Star AnyCharNotNL) (Concat (LiteralString ''=>'') (Star AnyCharNotNL))))))"

section \<open>The clock watcher\<close>

text \<open>\<open>os.FileInfo\<close>, of which \<open>Visit\<close> reads \<open>IsDir()\<close> only.\<close>

datatype FileInfo = FileInfo (IsDir: bool)

text \<open>The body of the loop of \<open>Visit\<close>, on one line.\<close>

definition Visit_line :: "string \<Rightarrow> Redirector \<Rightarrow> Redirector" where
  "Visit_line s r =
     (let isClock = MatchString pattern_clock s;
          isEnded = MatchString pattern_ended s
      in if isClock \<and> \<not> isEnded then r\<lparr>Clocking := True\<rparr> else r)"

text \<open>The part of \<open>Visit\<close> from \<open>os.Open\<close> on: opening and reading the file.\<close>

definition Visit_file :: "filesystem \<Rightarrow> Redirector \<Rightarrow> string \<Rightarrow> Redirector \<times> error option" where
  "Visit_file fs r path =
     (case os_Open fs path of
        Inl err \<Rightarrow> (r, Some err)
      | Inr f \<Rightarrow>
          let reader = NewReaderSize f (16 * 1024);
              (res, reader) = ReadLine reader;
              (r, isPrefix, err) = read_loop Visit_line reader res r
          in if isPrefix then (r, None)
             else if err \<noteq> Some EOF then (r, err)
             else (r, None))"

text \<open>
  \<open>Visit\<close>, the function given to \<open>filepath.Walk\<close>. \<open>info\<close> is an interface value:
  when it is \<open>nil\<close> the call \<open>info.IsDir()\<close> panics.
\<close>

definition Visit ::
  "filesystem \<Rightarrow> Redirector \<Rightarrow> string \<Rightarrow> FileInfo option \<Rightarrow> error option
     \<Rightarrow> panic + (Redirector \<times> error option)" where
  "Visit fs r path info e =
     (case info of
        None \<Rightarrow> Inl NilDereference
      | Some i \<Rightarrow>
          if IsDir i then Inr (r, None)
          else
            let isOrg = MatchString pattern_org path
            in if \<not> isOrg then Inr (r, None)
               else Inr (Visit_file fs r path))"

text \<open>
  What \<open>filepath.Walk\<close> finds under the root: a file (anything \<open>Lstat\<close> does not
  report as a directory), a directory with its entries, a directory whose names cannot be
  read, or a name on which \<open>Lstat\<close> fails. Every node carries its name; the name of the
  root is not used, the walk starts at the root path as it is given.
\<close>

datatype node =
    FileNode string
  | DirNode string "node list"
  | DirUnreadable string
  | LstatFails string

primrec name :: "node \<Rightarrow> string" where
  "name (FileNode n) = n"
| "name (DirNode n children) = n"
| "name (DirUnreadable n) = n"
| "name (LstatFails n) = n"

text \<open>The \<open>FileInfo\<close> that a successful \<open>Lstat\<close> returns for a node.\<close>

primrec Lstat :: "node \<Rightarrow> FileInfo" where
  "Lstat (FileNode n) = FileInfo False"
| "Lstat (DirNode n children) = FileInfo True"
| "Lstat (DirUnreadable n) = FileInfo True"
| "Lstat (LstatFails n) = FileInfo False"

text \<open>
  \<open>filepath.Clean\<close> with \<open>/\<close> as the separator. The path is read element by
  element: an empty element and \<open>.\<close> are dropped; \<open>..\<close> removes the last element
  kept so far, unless there is none or it is itself a \<open>..\<close>, in which case it is kept
  in a relative path and dropped in a rooted one; any other element is kept. The elements
  kept are joined with single separators after the leading separator of a rooted path,
  and an empty result is \<open>.\<close>.
\<close>

definition Clean_step :: "bool \<Rightarrow> string list \<Rightarrow> string \<Rightarrow> string list" where
  "Clean_step rooted out e =
     (if e = [] \<or> e = ''.'' then out
      else if e = ''..'' then
        (if out \<noteq> [] \<and> last out \<noteq> ''..'' then butlast out
         else if \<not> rooted then out @ [''..'']
         else out)
      else out @ [e])"

fun join_elements :: "string list \<Rightarrow> string" where
  "join_elements [] = []"
| "join_elements [e] = e"
| "join_elements (e # es) = e @ ''/'' @ join_elements es"

definition Clean :: "string \<Rightarrow> string" where
  "Clean path =
     (if path = [] then ''.''
      else
        let rooted = (hd path = CHR ''/'');
            out = foldl (Clean_step rooted) [] (Split path CHR ''/'')
        in if rooted then ''/'' @ join_elements out
           else if out = [] then ''.''
           else join_elements out)"

text \<open>
  \<open>filepath.Join(path, name)\<close>: the non-empty arguments joined with a separator, then
  cleaned; the empty string when both are empty.
\<close>

definition Join :: "string \<Rightarrow> string \<Rightarrow> string" where
  "Join path n =
     (if path \<noteq> [] then Clean (path @ ''/'' @ n)
      else if n \<noteq> [] then Clean n
      else [])"

text \<open>
  \<open>readDirNames\<close> returns the names of a directory sorted (\<open>sort.Strings\<close>, the
  order of the bytes); here the entries come back in the order of their names.
\<close>

definition readDirNames :: "node list \<Rightarrow> node list" where
  "readDirNames children = sort_key name children"

text \<open>The number of nodes of a tree, the measure by which the walk ends.\<close>

fun node_size :: "node \<Rightarrow> nat" where
  "node_size (DirNode n children) = Suc (sum_list (map node_size children))"
| "node_size t = 1"

text \<open>
  \<open>filepath.walk\<close> and its loop over the names of a directory, with the state of the
  walk function passed along. A panic of the walk function ends everything. An error of
  the walk function other than \<open>SkipDir\<close> ends the walk and is returned.
\<close>

function (sequential) walk ::
    "('s \<Rightarrow> string \<Rightarrow> FileInfo option \<Rightarrow> error option \<Rightarrow> panic + ('s \<times> error option))
       \<Rightarrow> string \<Rightarrow> node \<Rightarrow> 's \<Rightarrow> panic + ('s \<times> error option)"
  and walk_names ::
    "('s \<Rightarrow> string \<Rightarrow> FileInfo option \<Rightarrow> error option \<Rightarrow> panic + ('s \<times> error option))
       \<Rightarrow> string \<Rightarrow> node list \<Rightarrow> 's \<Rightarrow> panic + ('s \<times> error option)" where
  "walk walkFn path (FileNode n) s = walkFn s path (Some (Lstat (FileNode n))) None"
| "walk walkFn path (DirUnreadable n) s =
     walkFn s path (Some (Lstat (DirUnreadable n))) (Some (PathError (''open '' @ path)))"
| "walk walkFn path (DirNode n children) s =
     (case walkFn s path (Some (Lstat (DirNode n children))) None of
        Inl p \<Rightarrow> Inl p
      | Inr (s1, err1) \<Rightarrow>
          if err1 \<noteq> None then Inr (s1, err1)
          else walk_names walkFn path (readDirNames children) s1)"
| "walk walkFn path (LstatFails n) s =
     walkFn s path None (Some (PathError (''lstat '' @ path)))"
| "walk_names walkFn path [] s = Inr (s, None)"
| "walk_names walkFn path (c # cs) s =
     (let filename = Join path (name c)
      in case c of
           LstatFails n \<Rightarrow>
             (case walkFn s filename None (Some (PathError (''lstat '' @ filename))) of
                Inl p \<Rightarrow> Inl p
              | Inr (s1, err) \<Rightarrow>
                  if err \<noteq> None \<and> err \<noteq> Some SkipDir then Inr (s1, err)
                  else walk_names walkFn path cs s1)
         | _ \<Rightarrow>
             (case walk walkFn filename c s of
                Inl p \<Rightarrow> Inl p
              | Inr (s1, err) \<Rightarrow>
                  if err \<noteq> None \<and> (\<not> IsDir (Lstat c) \<or> err \<noteq> Some SkipDir)
                  then Inr (s1, err)
                  else walk_names walkFn path cs s1))"
  by pat_completeness auto
termination
proof -
  have ins: "sum_list (map node_size (insort_key name x ys))
               = node_size x + sum_list (map node_size ys)" for x ys
    by (induction ys) simp_all
  have srt: "sum_list (map node_size (sort_key name cs)) = sum_list (map node_size cs)" for cs
    by (induction cs) (simp_all add: ins)
  have pos: "0 < node_size c" for c
    by (cases c) simp_all
  show ?thesis
    by (relation "measure (\<lambda>x. case x of
            Inl (f, p, t, s) \<Rightarrow> 2 * node_size t
          | Inr (f, p, cs, s) \<Rightarrow> 2 * sum_list (map node_size cs) + 1)")
       (auto simp: readDirNames_def srt pos)
qed

text \<open>
  \<open>filepath.Walk(root, walkFn)\<close>: \<open>Lstat\<close> of the root, the walk, and \<open>SkipDir\<close>
  turned into \<open>nil\<close>.
\<close>

definition Walk ::
  "node \<Rightarrow> string
     \<Rightarrow> ('s \<Rightarrow> string \<Rightarrow> FileInfo option \<Rightarrow> error option \<Rightarrow> panic + ('s \<times> error option))
     \<Rightarrow> 's \<Rightarrow> panic + ('s \<times> error option)" where
  "Walk tree root walkFn s =
     (case walk walkFn root tree s of
        Inl p \<Rightarrow> Inl p
      | Inr (s1, err) \<Rightarrow> if err = Some SkipDir then Inr (s1, None) else Inr (s1, err))"

text \<open>
  \<open>IsClocking\<close>, one scan cycle of the watcher: the flag is cleared, the tree is walked,
  and the error that \<open>Walk\<close> returns is dropped.
\<close>

definition IsClocking :: "filesystem \<Rightarrow> node \<Rightarrow> Redirector \<Rightarrow> panic + Redirector" where
  "IsClocking fs tree r =
     (case Walk tree (OrgDir r) (Visit fs) (r\<lparr>Clocking := False\<rparr>) of
        Inl p \<Rightarrow> Inl p
      | Inr (r1, err) \<Rightarrow> Inr r1)"

section \<open>Vocabulary for the statements\<close>

text \<open>The strings a pattern matches as a whole.\<close>

primrec lang :: "Regexp \<Rightarrow> string set" where
  "lang NoMatch = {}"
| "lang EmptyMatch = {[]}"
| "lang (Literal c) = {[c]}"
| "lang AnyCharNotNL = {[c] | c. c \<noteq> CHR 0x0A}"
| "lang (Concat r1 r2) = {u @ v | u v. u \<in> lang r1 \<and> v \<in> lang r2}"
| "lang (Alternate r1 r2) = lang r1 \<union> lang r2"
| "lang (Star r) = {concat ws | ws. set ws \<subseteq> lang r}"

text \<open>
  The paths of the files of a tree, in the order in which \<open>filepath.Walk\<close> comes to
  them, and the trees in which every \<open>Lstat\<close> succeeds.
\<close>

fun tree_files :: "string \<Rightarrow> node \<Rightarrow> string list" where
  "tree_files path (FileNode n) = [path]"
| "tree_files path (DirNode n children) =
     concat (map (\<lambda>c. tree_files (Join path (name c)) c) (sort_key name children))"
| "tree_files path (DirUnreadable n) = []"
| "tree_files path (LstatFails n) = []"

fun lstat_succeeds :: "node \<Rightarrow> bool" where
  "lstat_succeeds (FileNode n) = True"
| "lstat_succeeds (DirNode n children) = list_all lstat_succeeds children"
| "lstat_succeeds (DirUnreadable n) = True"
| "lstat_succeeds (LstatFails n) = False"

text \<open>
  \<open>Visit\<close> called on a list of files one after the other, until one call returns an
  error: what the walk of a tree comes to (lemma \<open>walk_is_scan\<close>).
\<close>

fun scan_files :: "filesystem \<Rightarrow> string list \<Rightarrow> Redirector \<Rightarrow> panic + (Redirector \<times> error option)" where
  "scan_files fs [] r = Inr (r, None)"
| "scan_files fs (p # ps) r =
     (case Visit fs r p (Some (FileInfo False)) None of
        Inl x \<Rightarrow> Inl x
      | Inr (r1, err) \<Rightarrow> if err \<noteq> None then Inr (r1, err) else scan_files fs ps r1)"

text \<open>
  An open clock marker: a line that holds \<open>CLOCK:\<close> and is not of the shape
  \<open>... CLOCK: ... -- ... => ...\<close>.
\<close>

definition open_clock_marker :: "string \<Rightarrow> bool" where
  "open_clock_marker l \<longleftrightarrow>
     (\<exists>p q. l = p @ ''CLOCK:'' @ q) \<and>
     \<not> (\<exists>a b c d. l = a @ ''CLOCK:'' @ b @ ''--'' @ c @ ''=>'' @ d)"

text \<open>
  A file that opens and is read to its end by the loop of \<open>Visit\<close>: every line is
  shorter than the buffer of 16 KiB and the reading ends with \<open>io.EOF\<close>. A file that
  holds an open clock marker.
\<close>

definition read_to_end :: "filesystem \<Rightarrow> string \<Rightarrow> bool" where
  "read_to_end fs p \<longleftrightarrow>
     (\<exists>bs. fs p = Inr (File bs None) \<and> list_all (\<lambda>l. length l < 16 * 1024) (Split bs CHR 0x0A))"

definition file_has_open_marker :: "filesystem \<Rightarrow> string \<Rightarrow> bool" where
  "file_has_open_marker fs p \<longleftrightarrow>
     (\<exists>bs e. fs p = Inr (File bs e) \<and> list_ex open_clock_marker (file_lines bs))"

text \<open>The files of a list that \<open>Visit\<close> does not skip: those with \<open>.org\<close> in the path.\<close>

definition org_files :: "string list \<Rightarrow> string list" where
  "org_files ps = filter (\<lambda>p. Contains p ''.org'') ps"

text \<open>
  Inputs for the examples: a directory \<open>org\<close> with the entries \<open>z.txt\<close>,
  \<open>sub/c.org\<close>, \<open>z.org\<close> and \<open>a.org\<close>, a file system that gives the three
  \<open>.org\<close> files the results of \<open>os.Open\<close> it is told, and the two lines of the
  tests of the specification.
\<close>

definition example_tree :: node where
  "example_tree =
     DirNode ''org''
       [FileNode ''z.txt'', DirNode ''sub'' [FileNode ''c.org''], FileNode ''z.org'',
        FileNode ''a.org'']"

definition example_fs :: "string + File \<Rightarrow> string + File \<Rightarrow> string + File \<Rightarrow> filesystem" where
  "example_fs a c z =
     (\<lambda>p. if p = ''org/a.org'' then a
          else if p = ''org/sub/c.org'' then c
          else if p = ''org/z.org'' then z
          else Inl ''no such file or directory'')"

definition open_line :: string where
  "open_line = ''CLOCK: [2024-01-01 09:00]''"

definition closed_line :: string where
  "closed_line = ''CLOCK: [2024-01-01 09:00]--[2024-01-01 10:00] =>  1:00''"

definition text_file :: "string list \<Rightarrow> string + File" where
  "text_file ls = Inr (File (concat (map (\<lambda>l. l @ [CHR 0x0A]) ls)) None)"

section \<open>Facts about the library functions\<close>

lemma Contains_iff: "Contains s substr \<longleftrightarrow> (\<exists>p q. s = p @ substr @ q)"
proof (induction s)
  case Nil
  then show ?case by auto
next
  case (Cons c cs)
  show ?case
  proof
    assume "Contains (c # cs) substr"
    then consider "prefix substr (c # cs)" | "Contains cs substr" by auto
    then show "\<exists>p q. c # cs = p @ substr @ q"
    proof cases
      case 1
      then obtain q where "c # cs = substr @ q" by (auto simp: prefix_def)
      then have "c # cs = [] @ substr @ q" by simp
      then show ?thesis by blast
    next
      case 2
      then obtain p q where "cs = p @ substr @ q" using Cons.IH by auto
      then have "c # cs = (c # p) @ substr @ q" by simp
      then show ?thesis by blast
    qed
  next
    assume "\<exists>p q. c # cs = p @ substr @ q"
    then obtain p q where pq: "c # cs = p @ substr @ q" by blast
    show "Contains (c # cs) substr"
    proof (cases p)
      case Nil
      then have "prefix substr (c # cs)" using pq by (simp add: prefix_def)
      then show ?thesis by simp
    next
      case (Cons a p')
      then have "cs = p' @ substr @ q" using pq by simp
      then have "Contains cs substr" using Cons.IH by blast
      then show ?thesis by simp
    qed
  qed
qed

lemma found_loop_iff:
  "found_loop host ps found \<longleftrightarrow> found \<or> (\<exists>p \<in> set ps. Contains host p)"
  by (induction ps arbitrary: found) auto

lemma Split_not_Nil: "Split s sep \<noteq> []"
  by (induction s) (auto split: list.splits)

lemma Split_no_sep: "sep \<notin> set s \<Longrightarrow> Split s sep = [s]"
  by (induction s) auto

lemma Split_at_sep: "sep \<notin> set a \<Longrightarrow> Split (a @ sep # b) sep = a # Split b sep"
  by (induction a) auto

lemma Split_length: "length (Split s sep) < 2 \<longleftrightarrow> sep \<notin> set s"
proof (induction s)
  case Nil
  then show ?case by simp
next
  case (Cons c cs)
  then show ?case using Split_not_Nil [of cs sep]
    by (cases "Split cs sep") auto
qed

lemmas Atoi_eval = Atoi_def ParseInt_def ParseUint_def isDigit_def digitVal_def maxUint64_def

section \<open>What IsDenied computes\<close>

lemma token_window_None: "token_window t = None \<longleftrightarrow> CHR ''-'' \<notin> set t"
proof -
  have "token_window t = None \<longleftrightarrow> length (Split t CHR ''-'') < 2"
    using Split_not_Nil [of t "CHR ''-''"]
    by (auto simp: token_window_def split: list.splits)
  then show ?thesis by (simp add: Split_length)
qed

lemma hours_loop_step:
  "hours_loop h (t # ts) deny =
     (if t = [] then hours_loop h ts deny
      else case token_window t of
             None \<Rightarrow> Inl IndexOutOfRange
           | Some (start, stop) \<Rightarrow> hours_loop h ts (deny \<or> (start \<le> h \<and> h \<le> stop)))"
proof (cases "Split t CHR ''-''")
  case Nil
  then show ?thesis using Split_not_Nil by blast
next
  case (Cons a as)
  then show ?thesis
    by (cases as) (auto simp: token_window_def Let_def intro: arg_cong [where f = "hours_loop h ts"])
qed

lemma hours_loop_returns:
  "\<forall>t \<in> set ts. t = [] \<or> CHR ''-'' \<in> set t \<Longrightarrow>
   hours_loop h ts deny =
     Inr (deny \<or> (\<exists>t \<in> set ts. \<exists>start stop. t \<noteq> [] \<and> token_window t = Some (start, stop) \<and> start \<le> h \<and> h \<le> stop))"
proof (induction ts arbitrary: deny)
  case Nil
  then show ?case by simp
next
  case (Cons t ts)
  have IH: "\<And>d. hours_loop h ts d =
     Inr (d \<or> (\<exists>t \<in> set ts. \<exists>start stop. t \<noteq> [] \<and> token_window t = Some (start, stop) \<and> start \<le> h \<and> h \<le> stop))"
    using Cons by simp
  show ?case
  proof (cases "t = []")
    case True
    then show ?thesis by (simp only: hours_loop_step IH) auto
  next
    case False
    then have "CHR ''-'' \<in> set t" using Cons.prems by auto
    then obtain start stop where w: "token_window t = Some (start, stop)"
      using token_window_None [of t] by (cases "token_window t") auto
    show ?thesis using False w by (simp only: hours_loop_step IH) auto
  qed
qed

lemma hours_loop_panics:
  "t \<in> set ts \<Longrightarrow> t \<noteq> [] \<Longrightarrow> CHR ''-'' \<notin> set t \<Longrightarrow> hours_loop h ts deny = Inl IndexOutOfRange"
proof (induction ts arbitrary: deny)
  case Nil
  then show ?case by simp
next
  case (Cons u us)
  show ?case
  proof (cases "u = [] \<or> CHR ''-'' \<in> set u")
    case True
    then have "t \<in> set us" using Cons.prems by auto
    then have "\<And>d. hours_loop h us d = Inl IndexOutOfRange" using Cons by blast
    then show ?thesis using True token_window_None [of u]
      by (simp only: hours_loop_step) (auto split: option.splits)
  next
    case False
    then show ?thesis using token_window_None [of u] by (simp only: hours_loop_step) auto
  qed
qed

lemma IsDenied_returns:
  assumes "\<forall>t \<in> set (Hours r). t = [] \<or> CHR ''-'' \<in> set t"
  shows "IsDenied r host h =
     Inr ((\<exists>p \<in> set (Hosts r). \<exists>u v. host = u @ p @ v) \<and>
          (Blockmode r
           \<or> (\<exists>t \<in> set (Hours r). \<exists>start stop.
                 t \<noteq> [] \<and> token_window t = Some (start, stop) \<and> start \<le> h \<and> h \<le> stop)
           \<or> Clocking r))"
proof (cases "Hours r = []")
  case True
  then show ?thesis by (simp add: IsDenied_def found_loop_iff Contains_iff)
next
  case False
  then show ?thesis
    using hours_loop_returns [OF assms, of h "Blockmode r"]
    by (simp add: IsDenied_def found_loop_iff Contains_iff)
qed

lemma IsDenied_panics:
  assumes "t \<in> set (Hours r)" "t \<noteq> []" "CHR ''-'' \<notin> set t"
  shows "IsDenied r host h = Inl IndexOutOfRange"
proof -
  have "Hours r \<noteq> []" using assms(1) by auto
  then show ?thesis
    using hours_loop_panics [OF assms, of h "Blockmode r"] by (simp add: IsDenied_def)
qed

lemma ParseUint_loop_syntax: "snd (ParseUint_loop n s) = Some ErrSyntax \<Longrightarrow> fst (ParseUint_loop n s) = 0"
  by (induction n s rule: ParseUint_loop.induct) (auto simp: Let_def split: if_splits)

lemma Atoi_syntax: "snd (Atoi s) = Some ErrSyntax \<Longrightarrow> fst (Atoi s) = 0"
  by (auto simp: Atoi_def ParseInt_def Let_def split: if_splits prod.splits)

section \<open>What the patterns match\<close>

lemma nullable_lang: "nullable r \<longleftrightarrow> [] \<in> lang r"
proof (induction r)
  case (Star r)
  show ?case by (auto intro!: exI [of _ "[]"])
qed auto

lemma star_step:
  "(x # s \<in> {concat ws | ws. set ws \<subseteq> L}) \<longleftrightarrow>
   (\<exists>u v. s = u @ v \<and> x # u \<in> L \<and> v \<in> {concat ws | ws. set ws \<subseteq> L})"
proof
  assume "x # s \<in> {concat ws | ws. set ws \<subseteq> L}"
  then obtain ws where ws: "x # s = concat ws" "set ws \<subseteq> L" by blast
  then show "\<exists>u v. s = u @ v \<and> x # u \<in> L \<and> v \<in> {concat ws | ws. set ws \<subseteq> L}"
  proof (induction ws)
    case Nil
    then show ?case by simp
  next
    case (Cons w ws)
    show ?case
    proof (cases w)
      case Nil
      then show ?thesis using Cons by simp
    next
      case (Cons y u)
      then have "y = x" "s = u @ concat ws" using Cons.prems(1) by simp_all
      moreover have "x # u \<in> L" using Cons.prems(2) \<open>w = y # u\<close> \<open>y = x\<close> by simp
      moreover have "concat ws \<in> {concat ws | ws. set ws \<subseteq> L}" using Cons.prems(2) by auto
      ultimately show ?thesis by blast
    qed
  qed
next
  assume "\<exists>u v. s = u @ v \<and> x # u \<in> L \<and> v \<in> {concat ws | ws. set ws \<subseteq> L}"
  then obtain u ws where "s = u @ concat ws" "x # u \<in> L" "set ws \<subseteq> L" by blast
  then have "x # s = concat ((x # u) # ws) \<and> set ((x # u) # ws) \<subseteq> L" by simp
  then show "x # s \<in> {concat ws | ws. set ws \<subseteq> L}" by blast
qed

lemma deriv_lang: "s \<in> lang (deriv x r) \<longleftrightarrow> x # s \<in> lang r"
proof (induction r arbitrary: s)
  case (Concat r1 r2)
  have "x # s \<in> lang (Concat r1 r2) \<longleftrightarrow>
        (\<exists>u v. s = u @ v \<and> x # u \<in> lang r1 \<and> v \<in> lang r2) \<or> ([] \<in> lang r1 \<and> x # s \<in> lang r2)"
    by (auto simp: Cons_eq_append_conv) 
  then show ?case using Concat by (auto simp: nullable_lang)
next
  case (Star r)
  have "s \<in> lang (deriv x (Star r)) \<longleftrightarrow>
        (\<exists>u v. s = u @ v \<and> x # u \<in> lang r \<and> v \<in> {concat ws | ws. set ws \<subseteq> lang r})"
    using Star by auto
  then show ?case using star_step [of x s "lang r"] by simp
qed auto

lemma matches_lang: "matches r s \<longleftrightarrow> s \<in> lang r"
  by (induction s arbitrary: r) (simp_all add: nullable_lang deriv_lang)

lemma MatchString_iff:
  "MatchString pattern s \<longleftrightarrow> (\<exists>p m q. s = p @ m @ q \<and> m \<in> lang pattern)"
proof
  assume "MatchString pattern s"
  then obtain t m where "suffix t s" "prefix m t" "matches pattern m"
    by (auto simp: MatchString_def list_ex_iff in_set_prefixes in_set_suffixes)
  then show "\<exists>p m q. s = p @ m @ q \<and> m \<in> lang pattern"
    by (auto simp: suffix_def prefix_def matches_lang)
next
  assume "\<exists>p m q. s = p @ m @ q \<and> m \<in> lang pattern"
  then obtain p m q where "s = p @ m @ q" "m \<in> lang pattern" by blast
  then have "suffix (m @ q) s" "prefix m (m @ q)" "matches pattern m"
    by (simp_all add: suffix_def matches_lang)
  then show "MatchString pattern s"
    unfolding MatchString_def list_ex_iff in_set_prefixes in_set_suffixes
    using in_set_prefixes in_set_suffixes by blast
qed

lemma lang_LiteralString: "lang (LiteralString w) = {w}"
  by (induction w) auto

lemma lang_Star_AnyCharNotNL: "lang (Star AnyCharNotNL) = {w. CHR 0x0A \<notin> set w}"
proof
  show "lang (Star AnyCharNotNL) \<subseteq> {w. CHR 0x0A \<notin> set w}"
  proof
    fix w :: string
    assume "w \<in> lang (Star AnyCharNotNL)"
    then obtain ws where w: "w = concat ws" and ws: "set ws \<subseteq> {[c] | c. c \<noteq> CHR 0x0A}"
      by auto
    have "\<forall>x \<in> set ws. CHR 0x0A \<notin> set x"
    proof
      fix x assume "x \<in> set ws"
      then have "x \<in> {[c] | c. c \<noteq> CHR 0x0A}" using ws by blast
      then show "CHR 0x0A \<notin> set x" by auto
    qed
    then show "w \<in> {w. CHR 0x0A \<notin> set w}" using w by auto
  qed
  show "{w. CHR 0x0A \<notin> set w} \<subseteq> lang (Star AnyCharNotNL)"
  proof
    fix w :: string
    assume "w \<in> {w. CHR 0x0A \<notin> set w}"
    then have "w = concat (map (\<lambda>c. [c]) w) \<and> set (map (\<lambda>c. [c]) w) \<subseteq> lang AnyCharNotNL"
      by (induction w) auto
    then have "\<exists>ws. w = concat ws \<and> set ws \<subseteq> lang AnyCharNotNL" by (rule exI)
    then show "w \<in> lang (Star AnyCharNotNL)" by simp
  qed
qed

lemma MatchString_org: "MatchString pattern_org path \<longleftrightarrow> Contains path ''.org''"
  unfolding MatchString_iff pattern_org_def lang_LiteralString Contains_iff by simp

lemma lang_dots_literal:
  "m \<in> lang (Concat (Star AnyCharNotNL) (Concat (LiteralString w) R)) \<longleftrightarrow>
   (\<exists>a x. m = a @ w @ x \<and> CHR 0x0A \<notin> set a \<and> x \<in> lang R)"
proof -
  have "m \<in> lang (Concat (Star AnyCharNotNL) (Concat (LiteralString w) R)) \<longleftrightarrow>
        (\<exists>a y. m = a @ y \<and> a \<in> lang (Star AnyCharNotNL) \<and>
           (\<exists>u x. y = u @ x \<and> u \<in> lang (LiteralString w) \<and> x \<in> lang R))"
    by (simp only: lang.simps(5) mem_Collect_eq)
  then show ?thesis unfolding lang_Star_AnyCharNotNL lang_LiteralString by auto
qed

lemma MatchString_clock: "MatchString pattern_clock s \<longleftrightarrow> Contains s ''CLOCK:''"
proof
  assume "MatchString pattern_clock s"
  then obtain p m q where s: "s = p @ m @ q" and m: "m \<in> lang pattern_clock"
    unfolding MatchString_iff by blast
  from m obtain a x where "m = a @ ''CLOCK:'' @ x"
    unfolding pattern_clock_def lang_dots_literal by blast
  then have "s = (p @ a) @ ''CLOCK:'' @ (x @ q)" using s by simp
  then show "Contains s ''CLOCK:''" unfolding Contains_iff by blast
next
  assume "Contains s ''CLOCK:''"
  then obtain p q where s: "s = p @ ''CLOCK:'' @ q" unfolding Contains_iff by blast
  have "''CLOCK:'' = [] @ ''CLOCK:'' @ [] \<and> CHR 0x0A \<notin> set ([] :: string)
          \<and> [] \<in> lang (Star AnyCharNotNL)"
    unfolding lang_Star_AnyCharNotNL by simp
  then have "''CLOCK:'' \<in> lang pattern_clock"
    unfolding pattern_clock_def lang_dots_literal by blast
  then show "MatchString pattern_clock s" unfolding MatchString_iff using s by blast
qed

lemma lang_pattern_ended:
  "m \<in> lang pattern_ended \<longleftrightarrow>
   (\<exists>a b c d. m = a @ ''CLOCK:'' @ b @ ''--'' @ c @ ''=>'' @ d \<and>
      CHR 0x0A \<notin> set a \<and> CHR 0x0A \<notin> set b \<and> CHR 0x0A \<notin> set c \<and> CHR 0x0A \<notin> set d)"
  unfolding pattern_ended_def lang_dots_literal lang_Star_AnyCharNotNL by blast

lemma MatchString_ended:
  "MatchString pattern_ended s \<longleftrightarrow>
   (\<exists>a b c d. s = a @ ''CLOCK:'' @ b @ ''--'' @ c @ ''=>'' @ d \<and>
      CHR 0x0A \<notin> set b \<and> CHR 0x0A \<notin> set c)"
proof
  assume "MatchString pattern_ended s"
  then obtain p m q where s: "s = p @ m @ q" and m: "m \<in> lang pattern_ended"
    unfolding MatchString_iff by blast
  from m obtain a b c d where "m = a @ ''CLOCK:'' @ b @ ''--'' @ c @ ''=>'' @ d"
    and bc: "CHR 0x0A \<notin> set b" "CHR 0x0A \<notin> set c"
    unfolding lang_pattern_ended by blast
  then have "s = (p @ a) @ ''CLOCK:'' @ b @ ''--'' @ c @ ''=>'' @ (d @ q)" using s by simp
  then show "\<exists>a b c d. s = a @ ''CLOCK:'' @ b @ ''--'' @ c @ ''=>'' @ d \<and>
      CHR 0x0A \<notin> set b \<and> CHR 0x0A \<notin> set c" using bc by blast
next
  assume "\<exists>a b c d. s = a @ ''CLOCK:'' @ b @ ''--'' @ c @ ''=>'' @ d \<and>
      CHR 0x0A \<notin> set b \<and> CHR 0x0A \<notin> set c"
  then obtain a b c d where s: "s = a @ ''CLOCK:'' @ b @ ''--'' @ c @ ''=>'' @ d"
    and bc: "CHR 0x0A \<notin> set b" "CHR 0x0A \<notin> set c" by blast
  have "''CLOCK:'' @ b @ ''--'' @ c @ ''=>'' = [] @ ''CLOCK:'' @ b @ ''--'' @ c @ ''=>'' @ [] \<and>
        CHR 0x0A \<notin> set ([] :: string)" by simp
  then have "''CLOCK:'' @ b @ ''--'' @ c @ ''=>'' \<in> lang pattern_ended"
    unfolding lang_pattern_ended using bc by blast
  moreover have "s = a @ (''CLOCK:'' @ b @ ''--'' @ c @ ''=>'') @ d" using s by simp
  ultimately show "MatchString pattern_ended s" unfolding MatchString_iff by blast
qed

lemma MatchString_ended_needs_dashes:
  "\<not> Contains s ''--'' \<Longrightarrow> \<not> MatchString pattern_ended s"
proof
  assume no: "\<not> Contains s ''--''" and "MatchString pattern_ended s"
  then obtain a b c d where "s = a @ ''CLOCK:'' @ b @ ''--'' @ c @ ''=>'' @ d"
    unfolding MatchString_ended by blast
  then have "s = (a @ ''CLOCK:'' @ b) @ ''--'' @ (c @ ''=>'' @ d)" by simp
  then have "Contains s ''--''" unfolding Contains_iff by blast
  then show False using no by simp
qed

section \<open>What the reading loop reads\<close>

declare read_loop.simps [simp del]

lemma Split_piece_no_sep: "p \<in> set (Split s sep) \<Longrightarrow> sep \<notin> set p"
proof (induction s arbitrary: p)
  case Nil
  then show ?case by simp
next
  case (Cons c cs)
  then show ?case using Split_not_Nil [of cs sep]
    by (cases "Split cs sep") (auto split: if_splits)
qed

lemma file_lines_Nil: "file_lines [] = []"
  by (simp add: file_lines_def)

lemma file_lines_last: "bs \<noteq> [] \<Longrightarrow> CHR 0x0A \<notin> set bs \<Longrightarrow> file_lines bs = [bs]"
  by (simp add: file_lines_def Split_no_sep)

lemma file_lines_line:
  "CHR 0x0A \<notin> set a \<Longrightarrow> file_lines (a @ CHR 0x0A # b) = chomp a # file_lines b"
  using Split_not_Nil [of b "CHR 0x0A"] by (simp add: file_lines_def Split_at_sep Let_def)

lemma file_line_no_LF: "l \<in> set (file_lines bs) \<Longrightarrow> CHR 0x0A \<notin> set l"
proof -
  assume l: "l \<in> set (file_lines bs)"
  have ch: "\<And>p. set (chomp p) \<subseteq> set p"
    by (auto simp: chomp_def dest: in_set_butlastD)
  have "\<exists>p \<in> set (Split bs CHR 0x0A). set l \<subseteq> set p"
    using l ch Split_not_Nil [of bs "CHR 0x0A"]
    by (auto simp: file_lines_def Let_def split: if_splits dest: in_set_butlastD)
  then show ?thesis using Split_piece_no_sep by blast
qed

lemma ReadLine_at_end:
  "ReadLine \<lparr>src = [], src_err = e, bufsize = n\<rparr> =
     (([], False, Some e), \<lparr>src = [], src_err = e, bufsize = n\<rparr>)"
  by (simp add: ReadLine_def)

lemma ReadLine_last_line:
  "bs \<noteq> [] \<Longrightarrow> CHR 0x0A \<notin> set bs \<Longrightarrow> length bs < n \<Longrightarrow>
   ReadLine \<lparr>src = bs, src_err = e, bufsize = n\<rparr> =
     ((bs, False, None), \<lparr>src = [], src_err = e, bufsize = n\<rparr>)"
proof -
  assume a: "bs \<noteq> []" "CHR 0x0A \<notin> set bs" "length bs < n"
  have tw: "takeWhile (\<lambda>c. c \<noteq> CHR 0x0A) bs = bs"
    and dw: "dropWhile (\<lambda>c. c \<noteq> CHR 0x0A) bs = []"
    using a(2) by (auto simp: takeWhile_eq_all_conv)
  show ?thesis using a(1,3) by (simp add: ReadLine_def Let_def tw dw)
qed

lemma ReadLine_line:
  "CHR 0x0A \<notin> set a \<Longrightarrow> length a < n \<Longrightarrow>
   ReadLine \<lparr>src = a @ CHR 0x0A # b, src_err = e, bufsize = n\<rparr> =
     ((chomp a, False, None), \<lparr>src = b, src_err = e, bufsize = n\<rparr>)"
proof -
  assume a: "CHR 0x0A \<notin> set a" "length a < n"
  have tw: "takeWhile (\<lambda>c. c \<noteq> CHR 0x0A) (a @ CHR 0x0A # b) = a"
    and dw: "dropWhile (\<lambda>c. c \<noteq> CHR 0x0A) (a @ CHR 0x0A # b) = CHR 0x0A # b"
    using a(1) by (induction a) auto
  show ?thesis using a(2) by (simp add: ReadLine_def Let_def tw dw chomp_def)
qed

lemma read_loop_lines:
  "\<forall>l \<in> set (Split bs CHR 0x0A). length l < n \<Longrightarrow>
   (case ReadLine \<lparr>src = bs, src_err = e, bufsize = n\<rparr> of
      (res, b) \<Rightarrow> read_loop body b res s) = (fold body (file_lines bs) s, False, Some e)"
proof (induction bs arbitrary: s rule: length_induct)
  case (1 bs)
  show ?case
  proof (cases "bs = []")
    case True
    then show ?thesis by (simp add: ReadLine_at_end file_lines_Nil read_loop.simps)
  next
    case nonempty: False
    show ?thesis
    proof (cases "CHR 0x0A \<in> set bs")
      case False
      then have "length bs < n" using 1(2) by (simp add: Split_no_sep)
      then show ?thesis using nonempty False
        by (simp add: ReadLine_last_line file_lines_last ReadLine_at_end read_loop.simps)
    next
      case True
      then obtain a b where bs: "bs = a @ CHR 0x0A # b" and a: "CHR 0x0A \<notin> set a"
        by (auto dest: split_list_first)
      have sp: "Split bs CHR 0x0A = a # Split b CHR 0x0A" using bs a by (simp add: Split_at_sep)
      then have short: "length a < n" and rest: "\<forall>l \<in> set (Split b CHR 0x0A). length l < n"
        using 1(2) by simp_all
      have "length b < length bs" using bs by simp
      then have IH: "\<And>s. (case ReadLine \<lparr>src = b, src_err = e, bufsize = n\<rparr> of
          (res, b') \<Rightarrow> read_loop body b' res s) = (fold body (file_lines b) s, False, Some e)"
        using 1(1) rest by blast
      show ?thesis
        unfolding bs using a short IH [of "body (chomp a) s"]
        by (simp add: ReadLine_line file_lines_line read_loop.simps)
    qed
  qed
qed

lemma fold_append_Hosts:
  "fold (\<lambda>s r. r\<lparr>Hosts := Hosts r @ [s]\<rparr>) ls r = r\<lparr>Hosts := Hosts r @ ls\<rparr>"
  by (induction ls arbitrary: r) simp_all

lemma InitHosts_reads_lines:
  assumes "fs (Blacklist r) = Inr (File bs None)"
    and "\<forall>l \<in> set (Split bs CHR 0x0A). length l < 16 * 1024"
  shows "InitHosts fs r = (r\<lparr>Hosts := Hosts r @ file_lines bs\<rparr>, None)"
proof -
  obtain res b where rl: "ReadLine \<lparr>src = bs, src_err = EOF, bufsize = 16 * 1024\<rparr> = (res, b)"
    by (cases "ReadLine \<lparr>src = bs, src_err = EOF, bufsize = 16 * 1024\<rparr>")
  have "read_loop (\<lambda>s r. r\<lparr>Hosts := Hosts r @ [s]\<rparr>) b res r =
          (r\<lparr>Hosts := Hosts r @ file_lines bs\<rparr>, False, Some EOF)"
    using read_loop_lines [OF assms(2), where e = EOF
        and body = "\<lambda>s r. r\<lparr>Hosts := Hosts r @ [s]\<rparr>" and s = r] rl
    by (simp add: fold_append_Hosts)
  then show ?thesis using rl by (simp add: InitHosts_def os_Open_def NewReaderSize_def assms(1))
qed

lemma InitHosts_open_fails:
  "fs (Blacklist r) = Inl msg \<Longrightarrow> InitHosts fs r = (r, Some (PathError msg))"
  by (simp add: InitHosts_def os_Open_def)

section \<open>What the walk visits\<close>

lemma Visit_directory: "Visit fs r path (Some (FileInfo True)) e = Inr (r, None)"
  by (simp add: Visit_def)

lemma Visit_not_directory:
  "Visit fs r path (Some (FileInfo False)) e =
     (if Contains path ''.org'' then Inr (Visit_file fs r path) else Inr (r, None))"
  by (simp add: Visit_def MatchString_org)

lemma ReadLine_src_err: "src_err (snd (ReadLine b)) = src_err b"
  by (simp add: ReadLine_def Let_def)

lemma ReadLine_err: "snd (snd (fst (ReadLine b))) = None \<or> snd (snd (fst (ReadLine b))) = Some (src_err b)"
  by (simp add: ReadLine_def Let_def)

lemma read_loop_stop:
  "\<not> (err = None \<and> \<not> isPrefix) \<Longrightarrow>
   read_loop body b (line, isPrefix, err) s = (s, isPrefix, err)"
  by (subst read_loop.simps) (simp only: if_False)

lemma read_loop_go:
  "ReadLine b = (res, b') \<Longrightarrow>
   read_loop body b (line, False, None) s = read_loop body b' res (body line s)"
  by (subst read_loop.simps) simp

lemma read_loop_err:
  "read_loop body b res s = (s', p, e) \<Longrightarrow> snd (snd res) \<noteq> Some SkipDir \<Longrightarrow>
   src_err b \<noteq> SkipDir \<Longrightarrow> e \<noteq> Some SkipDir"
proof (induction body b res s rule: read_loop.induct)
  case (1 body b line isPrefix err s)
  show ?case
  proof (cases "err = None \<and> \<not> isPrefix")
    case False
    then have "e = err" using 1(2) read_loop_stop [OF False, of body b line s] by simp
    then show ?thesis using 1(3) by simp
  next
    case True
    obtain res' b' where rl: "ReadLine b = (res', b')" by (cases "ReadLine b")
    have step: "read_loop body b' res' (body line s) = (s', p, e)"
      using 1(2) True read_loop_go [OF rl, of body line s] by simp
    have "snd (snd res') \<noteq> Some SkipDir" "src_err b' \<noteq> SkipDir"
      using ReadLine_err [of b] ReadLine_src_err [of b] rl 1(4) by auto
    then show ?thesis using 1(1) [OF True refl refl rl [symmetric] step] by simp
  qed
qed

lemma Visit_file_err: "snd (Visit_file fs r path) \<noteq> Some SkipDir"
proof (cases "fs path")
  case (Inl msg)
  then show ?thesis by (simp add: Visit_file_def os_Open_def)
next
  case (Inr f)
  define b0 where "b0 = NewReaderSize f (16 * 1024)"
  obtain res b where rl: "ReadLine b0 = (res, b)" by (cases "ReadLine b0")
  obtain r1 p e where lp: "read_loop Visit_line b res r = (r1, p, e)"
    by (cases "read_loop Visit_line b res r")
  have "src_err b0 \<noteq> SkipDir" by (simp add: b0_def NewReaderSize_def split: option.splits)
  then have "snd (snd res) \<noteq> Some SkipDir" "src_err b \<noteq> SkipDir"
    using ReadLine_err [of b0] ReadLine_src_err [of b0] rl by auto
  then have "e \<noteq> Some SkipDir" using read_loop_err [OF lp] by simp
  moreover have "NewReaderSize f 16384 = b0" by (simp add: b0_def)
  ultimately show ?thesis using Inr rl lp by (simp add: Visit_file_def os_Open_def)
qed

lemma scan_files_err: "scan_files fs ps r = Inr (r1, err) \<Longrightarrow> err \<noteq> Some SkipDir"
proof (induction ps arbitrary: r)
  case Nil
  then show ?case by simp
next
  case (Cons p ps)
  have "\<exists>r2 e2. Visit fs r p (Some (FileInfo False)) None = Inr (r2, e2) \<and> e2 \<noteq> Some SkipDir"
    using Visit_file_err [of fs r p]
    by (cases "Visit_file fs r p") (auto simp: Visit_not_directory)
  then obtain r2 e2 where v: "Visit fs r p (Some (FileInfo False)) None = Inr (r2, e2)"
    and e2: "e2 \<noteq> Some SkipDir" by blast
  show ?case
  proof (cases "e2 = None")
    case True
    then show ?thesis using Cons v by simp
  next
    case False
    then show ?thesis using Cons.prems v e2 by auto
  qed
qed

lemma scan_files_append:
  "scan_files fs (ps @ qs) r =
     (case scan_files fs ps r of
        Inl x \<Rightarrow> Inl x
      | Inr (r1, err) \<Rightarrow> if err \<noteq> None then Inr (r1, err) else scan_files fs qs r1)"
proof (induction ps arbitrary: r)
  case Nil
  then show ?case by simp
next
  case (Cons p ps)
  then show ?case by (auto split: sum.splits prod.splits)
qed

lemma walk_names_is_scan:
  assumes "\<And>c path r. c \<in> set cs \<Longrightarrow> lstat_succeeds c \<Longrightarrow>
             walk (Visit fs) path c r = scan_files fs (tree_files path c) r"
    and "list_all lstat_succeeds cs"
  shows "walk_names (Visit fs) path cs r =
           scan_files fs (concat (map (\<lambda>c. tree_files (Join path (name c)) c) cs)) r"
  using assms
proof (induction cs arbitrary: r)
  case Nil
  then show ?case by simp
next
  case (Cons c cs)
  have c: "lstat_succeeds c" and cs: "list_all lstat_succeeds cs" using Cons.prems(2) by simp_all
  have w: "walk (Visit fs) (Join path (name c)) c r =
             scan_files fs (tree_files (Join path (name c)) c) r"
    using Cons.prems(1) c by simp
  have IH: "\<And>r. walk_names (Visit fs) path cs r =
             scan_files fs (concat (map (\<lambda>c. tree_files (Join path (name c)) c) cs)) r"
    using Cons.IH Cons.prems(1) cs by simp
  have nl: "\<And>n. c \<noteq> LstatFails n" using c by auto
  show ?case
  proof (cases "scan_files fs (tree_files (Join path (name c)) c) r")
    case (Inl x)
    then show ?thesis using w nl
      by (cases c) (simp_all add: scan_files_append Let_def)
  next
    case (Inr res)
    obtain r1 err where res: "res = (r1, err)" by (cases res)
    have "err \<noteq> Some SkipDir" using scan_files_err Inr res by blast
    then show ?thesis using w nl Inr res IH
      by (cases c) (simp_all add: scan_files_append Let_def)
  qed
qed

lemma walk_is_scan:
  "lstat_succeeds t \<Longrightarrow> walk (Visit fs) path t r = scan_files fs (tree_files path t) r"
proof (induction t arbitrary: path r)
  case (FileNode n)
  show ?case
    by (cases "Visit fs r path (Some (FileInfo False)) None") (auto split: prod.splits)
next
  case (DirNode n children)
  have "walk_names (Visit fs) path (readDirNames children) r =
          scan_files fs
            (concat (map (\<lambda>c. tree_files (Join path (name c)) c) (readDirNames children))) r"
    using DirNode by (intro walk_names_is_scan) (simp_all add: readDirNames_def list_all_iff)
  then show ?case by (simp add: Visit_directory readDirNames_def)
next
  case (DirUnreadable n)
  show ?case by (simp add: Visit_directory)
next
  case (LstatFails n)
  then show ?case by simp
qed

lemma IsClocking_is_scan:
  "lstat_succeeds tree \<Longrightarrow>
   IsClocking fs tree r =
     (case scan_files fs (tree_files (OrgDir r) tree) (r\<lparr>Clocking := False\<rparr>) of
        Inl x \<Rightarrow> Inl x | Inr (r1, err) \<Rightarrow> Inr r1)"
  by (simp add: IsClocking_def Walk_def walk_is_scan split: sum.splits prod.splits)

lemma Visit_line_marker:
  assumes "CHR 0x0A \<notin> set l"
  shows "Visit_line l r = (if open_clock_marker l then r\<lparr>Clocking := True\<rparr> else r)"
proof -
  have "MatchString pattern_ended l \<longleftrightarrow>
        (\<exists>a b c d. l = a @ ''CLOCK:'' @ b @ ''--'' @ c @ ''=>'' @ d)"
  proof
    assume "MatchString pattern_ended l"
    then show "\<exists>a b c d. l = a @ ''CLOCK:'' @ b @ ''--'' @ c @ ''=>'' @ d"
      unfolding MatchString_ended by blast
  next
    assume "\<exists>a b c d. l = a @ ''CLOCK:'' @ b @ ''--'' @ c @ ''=>'' @ d"
    then obtain a b c d where l: "l = a @ ''CLOCK:'' @ b @ ''--'' @ c @ ''=>'' @ d" by blast
    have "set b \<subseteq> set l" "set c \<subseteq> set l" by (auto simp: l)
    then have "CHR 0x0A \<notin> set b" "CHR 0x0A \<notin> set c" using assms by blast+
    then show "MatchString pattern_ended l" unfolding MatchString_ended using l by blast
  qed
  then show ?thesis
    by (simp add: Visit_line_def MatchString_clock Contains_iff open_clock_marker_def)
qed

lemma fold_Visit_line:
  "\<forall>l \<in> set ls. CHR 0x0A \<notin> set l \<Longrightarrow>
   fold Visit_line ls r = r\<lparr>Clocking := Clocking r \<or> list_ex open_clock_marker ls\<rparr>"
proof (induction ls arbitrary: r)
  case Nil
  then show ?case by simp
next
  case (Cons l ls)
  then show ?case by (simp add: Visit_line_marker)
qed

lemma Visit_file_reads:
  assumes "fs p = Inr (File bs None)"
    and "list_all (\<lambda>l. length l < 16 * 1024) (Split bs CHR 0x0A)"
  shows "Visit_file fs r p =
           (r\<lparr>Clocking := Clocking r \<or> list_ex open_clock_marker (file_lines bs)\<rparr>, None)"
proof -
  obtain res b where rl: "ReadLine \<lparr>src = bs, src_err = EOF, bufsize = 16 * 1024\<rparr> = (res, b)"
    by (cases "ReadLine \<lparr>src = bs, src_err = EOF, bufsize = 16 * 1024\<rparr>")
  have short: "\<forall>l \<in> set (Split bs CHR 0x0A). length l < 16 * 1024"
    using assms(2) by (simp add: list_all_iff)
  have "read_loop Visit_line b res r =
          (r\<lparr>Clocking := Clocking r \<or> list_ex open_clock_marker (file_lines bs)\<rparr>, False, Some EOF)"
    using read_loop_lines [OF short, where e = EOF and body = Visit_line and s = r] rl
      fold_Visit_line [of "file_lines bs" r] file_line_no_LF [of _ bs]
    by auto
  then show ?thesis using rl by (simp add: Visit_file_def os_Open_def NewReaderSize_def assms(1))
qed

lemma Visit_file_open_fails:
  "fs p = Inl msg \<Longrightarrow> Visit_file fs r p = (r, Some (PathError msg))"
  by (simp add: Visit_file_def os_Open_def)

lemma scan_files_read_to_end:
  "\<forall>p \<in> set (org_files ps). read_to_end fs p \<Longrightarrow>
   scan_files fs ps r =
     Inr (r\<lparr>Clocking := Clocking r \<or> list_ex (file_has_open_marker fs) (org_files ps)\<rparr>, None)"
proof (induction ps arbitrary: r)
  case Nil
  then show ?case by (simp add: org_files_def)
next
  case (Cons p ps)
  have IH: "\<And>r. scan_files fs ps r =
     Inr (r\<lparr>Clocking := Clocking r \<or> list_ex (file_has_open_marker fs) (org_files ps)\<rparr>, None)"
    using Cons by (simp add: org_files_def)
  show ?case
  proof (cases "Contains p ''.org''")
    case False
    then show ?thesis by (simp add: Visit_not_directory IH org_files_def)
  next
    case True
    then have "read_to_end fs p" using Cons.prems by (simp add: org_files_def)
    then obtain bs where bs: "fs p = Inr (File bs None)"
      "list_all (\<lambda>l. length l < 16 * 1024) (Split bs CHR 0x0A)"
      unfolding read_to_end_def by blast
    have "file_has_open_marker fs p \<longleftrightarrow> list_ex open_clock_marker (file_lines bs)"
      using bs(1) by (simp add: file_has_open_marker_def)
    then show ?thesis
      using True Visit_file_reads [of fs p bs r, OF bs]
      by (simp add: Visit_not_directory IH org_files_def) 
  qed
qed

lemma scan_files_stops:
  assumes "\<forall>q \<in> set (org_files before). read_to_end fs q"
    and "Contains p ''.org''" and "fs p = Inl msg"
  shows "scan_files fs (before @ p # after) r =
     Inr (r\<lparr>Clocking := Clocking r \<or> list_ex (file_has_open_marker fs) (org_files before)\<rparr>,
          Some (PathError msg))"
  using scan_files_read_to_end [OF assms(1), of r] assms(2,3)
  by (simp add: scan_files_append Visit_not_directory Visit_file_open_fails)

lemma IsClocking_read_to_end:
  assumes "lstat_succeeds tree"
    and "\<forall>p \<in> set (org_files (tree_files (OrgDir r) tree)). read_to_end fs p"
  shows "IsClocking fs tree r =
     Inr (r\<lparr>Clocking := list_ex (file_has_open_marker fs) (org_files (tree_files (OrgDir r) tree))\<rparr>)"
  using scan_files_read_to_end [OF assms(2), of "r\<lparr>Clocking := False\<rparr>"]
  by (simp add: IsClocking_is_scan [OF assms(1)])

lemma IsClocking_stops:
  assumes "lstat_succeeds tree"
    and "tree_files (OrgDir r) tree = before @ p # after"
    and "\<forall>q \<in> set (org_files before). read_to_end fs q"
    and "Contains p ''.org''" and "fs p = Inl msg"
  shows "IsClocking fs tree r =
     Inr (r\<lparr>Clocking := list_ex (file_has_open_marker fs) (org_files before)\<rparr>)"
  using scan_files_stops [of before fs p msg after "r\<lparr>Clocking := False\<rparr>", OF assms(3,4,5)]
  by (simp add: IsClocking_is_scan [OF assms(1)] assms(2))

section \<open>Claims about IsDenied\<close>

text \<open>
  Claim C3 says that \<open>IsDenied\<close> is total: for every host and every hour-window
  configuration, a token without a dash included, it returns a boolean and never panics.
  Started as \<open>redirector -hours 8\<close>, the program holds the one token \<open>8\<close>;
  \<open>strings.Split\<close> gives a single piece and \<open>hours[1]\<close> panics with an index out
  of range, for every host and hour (lemma \<open>IsDenied_panics\<close>). The code guards the
  empty token only.
\<close>

theorem IsDenied_token_without_dash:
  "IsDenied (main_Redirector '':8080'' '':8081'' ''blacklist'' [] False ''8'') ''example.com'' 9
     = Inl IndexOutOfRange"
  by (simp add: IsDenied_def main_Redirector_def main_Hours_def)

text \<open>
  Claim C8 says that a host that no blacklist pattern occurs in gets the answer false
  for every hour-window configuration. With the configuration \<open>8-11,13\<close> the
  evaluation of such a host panics instead of returning false. On every configuration
  whose non-empty tokens all hold a dash the answer is false (lemma \<open>IsDenied_returns\<close>).
\<close>

theorem IsDenied_unmatched_host_panics:
  "\<not> Contains ''golang.org'' ''example.com'' \<and>
   IsDenied ((main_Redirector '':8080'' '':8081'' ''blacklist'' [] False ''8-11,13'')
               \<lparr>Hosts := [''example.com'']\<rparr>) ''golang.org'' 9
     = Inl IndexOutOfRange"
  by (simp add: IsDenied_def main_Redirector_def main_Hours_def Atoi_eval)

text \<open>
  Claim C1 says that for every hour-window configuration \<open>IsDenied\<close> returns true
  exactly when a pattern occurs in the host and block mode, a window or the clocking flag
  holds. With a matching pattern, block mode on and the configuration \<open>9-17,22\<close>
  the right-hand side is true, and the evaluation panics at the token \<open>22\<close> instead
  of returning true. On every configuration whose non-empty tokens all hold a dash the
  result is the claimed one (lemma \<open>IsDenied_returns\<close>).
\<close>

theorem IsDenied_matched_blockmode_panics:
  "Contains ''www.example.com'' ''example.com'' \<and>
   Blockmode ((main_Redirector '':8080'' '':8081'' ''blacklist'' [] True ''9-17,22'')
               \<lparr>Hosts := [''example.com'']\<rparr>) \<and>
   IsDenied ((main_Redirector '':8080'' '':8081'' ''blacklist'' [] True ''9-17,22'')
               \<lparr>Hosts := [''example.com'']\<rparr>) ''www.example.com'' 10
     = Inl IndexOutOfRange"
  by (simp add: IsDenied_def main_Redirector_def main_Hours_def Atoi_eval)

text \<open>
  Claim C4 says that a token with a half that is not numeric contributes no window. The
  first half of \<open>x-23\<close> is a syntax error for \<open>Atoi\<close>, and the token alone turns the
  time flag on at hour 5.
\<close>

theorem nonnumeric_half_counterexample:
  "snd (Atoi ''x'') = Some ErrSyntax \<and> hours_loop 5 [''x-23''] False = Inr True"
  by (simp add: Atoi_eval)

text \<open>
  Claim C4, amended: in a token with a dash, a half that \<open>Atoi\<close> rejects as not
  numeric counts as 0; the token turns the time flag on exactly at the hours from its start
  to its stop, with 0 in the place of each such half.
\<close>

theorem nonnumeric_half_counts_as_zero:
  assumes "Split t CHR ''-'' = a # b # rest"
  shows "hours_loop h [t] False =
     Inr ((if snd (Atoi a) = Some ErrSyntax then 0 else fst (Atoi a)) \<le> h \<and>
          h \<le> (if snd (Atoi b) = Some ErrSyntax then 0 else fst (Atoi b)))"
proof -
  have "t \<noteq> []" using assms by auto
  moreover have "token_window t = Some (fst (Atoi a), fst (Atoi b))"
    using assms by (simp add: token_window_def)
  ultimately have "hours_loop h [t] False = Inr (fst (Atoi a) \<le> h \<and> h \<le> fst (Atoi b))"
    by (simp only: hours_loop_step) simp
  then show ?thesis using Atoi_syntax [of a] Atoi_syntax [of b] by simp
qed

theorem nonnumeric_half_counts_as_zero_witness:
  "Split ''abc-17'' CHR ''-'' = [''abc'', ''17''] \<and> snd (Atoi ''abc'') = Some ErrSyntax \<and>
   hours_loop 3 [''abc-17''] False = Inr True"
proof -
  have s: "Split ''abc-17'' CHR ''-'' = ''abc'' # ''17'' # []" by simp
  show ?thesis
    using s nonnumeric_half_counts_as_zero [OF s, of 3] by (simp add: Atoi_eval)
qed

text \<open>
  Claim C9: a window contains the hour \<open>h\<close> exactly when \<open>start \<le> h \<le> stop\<close>, both
  ends included; with the flag value \<open>8-11,13-17\<close> the hours 9 and 17 are contained and
  the hour 12 is not.
\<close>

theorem hour_window_inclusive:
  assumes "Atoi a = (start, None)" "Atoi b = (stop, None)"
    and "CHR ''-'' \<notin> set a" "CHR ''-'' \<notin> set b"
  shows "hours_loop h [a @ ''-'' @ b] False = Inr (start \<le> h \<and> h \<le> stop) \<and>
         hours_loop 9 (main_Hours ''8-11,13-17'') False = Inr True \<and>
         hours_loop 12 (main_Hours ''8-11,13-17'') False = Inr False \<and>
         hours_loop 17 (main_Hours ''8-11,13-17'') False = Inr True"
proof -
  have sp: "Split (a @ ''-'' @ b) CHR ''-'' = [a, b]"
    using assms(3,4) by (simp add: Split_at_sep Split_no_sep)
  then have "token_window (a @ ''-'' @ b) = Some (start, stop)"
    using assms(1,2) by (simp add: token_window_def)
  then have "hours_loop h [a @ ''-'' @ b] False = Inr (start \<le> h \<and> h \<le> stop)"
    by (simp only: hours_loop_step) simp
  moreover have "hours_loop 9 (main_Hours ''8-11,13-17'') False = Inr True"
    by (simp add: main_Hours_def Atoi_eval)
  moreover have "hours_loop 12 (main_Hours ''8-11,13-17'') False = Inr False"
    by (simp add: main_Hours_def Atoi_eval)
  moreover have "hours_loop 17 (main_Hours ''8-11,13-17'') False = Inr True"
    by (simp add: main_Hours_def Atoi_eval)
  ultimately show ?thesis by simp
qed

theorem hour_window_inclusive_witness:
  "Atoi ''8'' = (8, None) \<and> Atoi ''11'' = (11, None) \<and>
   hours_loop 8 [''8-11''] False = Inr True \<and>
   hours_loop 11 [''8-11''] False = Inr True \<and>
   hours_loop 7 [''8-11''] False = Inr False \<and>
   hours_loop 12 [''8-11''] False = Inr False"
proof -
  have a: "Atoi ''8'' = (8, None)" and b: "Atoi ''11'' = (11, None)"
    by (simp_all add: Atoi_eval)
  have c: "CHR ''-'' \<notin> set ''8''" and d: "CHR ''-'' \<notin> set ''11''" by simp_all
  show ?thesis
    using a b hour_window_inclusive [OF a b c d, of 8] hour_window_inclusive [OF a b c d, of 11]
      hour_window_inclusive [OF a b c d, of 7] hour_window_inclusive [OF a b c d, of 12]
    by simp
qed

section \<open>Claims about the blacklist loader\<close>

lemma Split_replicate_sep: "Split (replicate n sep) sep = replicate (Suc n) []"
  by (induction n) simp_all

lemma file_lines_empty_lines: "file_lines (replicate n (CHR 0x0A)) = replicate n []"
proof -
  have "butlast (replicate (Suc n) ([] :: string)) = replicate n []"
    by (simp add: butlast_conv_take del: replicate.simps)
  moreover have "last (replicate (Suc n) ([] :: string)) = []"
    by (simp del: replicate.simps)
  ultimately show ?thesis
    by (simp add: file_lines_def Split_replicate_sep chomp_def del: replicate.simps)
qed

text \<open>
  When the blacklist file cannot be opened, \<open>InitHosts\<close> returns the error and leaves
  \<open>r.Hosts\<close> as it was, empty in the \<open>Redirector\<close> that \<open>main\<close> builds. On the
  hour-window tokens on which \<open>IsDenied\<close> returns at all (each empty or with a dash) it
  then returns false for every host, hour, block-mode value and clocking value.
\<close>

lemma missing_blacklist_fails_open:
  assumes "fs (Blacklist r) = Inl msg" and "Hosts r = []"
    and "\<forall>t \<in> set (Hours r). t = [] \<or> CHR ''-'' \<in> set t"
  shows "InitHosts fs r = (r, Some (PathError msg)) \<and>
         Hosts (fst (InitHosts fs r)) = [] \<and>
         IsDenied ((fst (InitHosts fs r))\<lparr>Blockmode := bm, Clocking := ck\<rparr>) host h = Inr False"
proof -
  have i: "InitHosts fs r = (r, Some (PathError msg))"
    using assms(1) by (rule InitHosts_open_fails)
  have "\<forall>t \<in> set (Hours (r\<lparr>Blockmode := bm, Clocking := ck\<rparr>)). t = [] \<or> CHR ''-'' \<in> set t"
    using assms(3) by simp
  then have "IsDenied (r\<lparr>Blockmode := bm, Clocking := ck\<rparr>) host h = Inr False"
    using assms(2) by (simp add: IsDenied_returns)
  then show ?thesis using i assms(2) by simp
qed

text \<open>
  Claim C7 says that with a blacklist file that cannot be opened \<open>IsDenied\<close> returns
  false for every host, every hour, every block-mode value and every clocking value.
  Started as \<open>redirector -hours 8\<close> with no blacklist file, the program keeps
  \<open>r.Hosts\<close> empty, as the claim says, and \<open>IsDenied\<close> panics at the token \<open>8\<close>
  instead of returning false, whatever the host, the hour and the two flags are (lemma
  \<open>IsDenied_panics\<close>).
\<close>

theorem missing_blacklist_evaluation_panics:
  "InitHosts (\<lambda>p. Inl ''no such file or directory'')
     (main_Redirector '':8080'' '':8081'' ''blacklist'' [] False ''8'')
     = (main_Redirector '':8080'' '':8081'' ''blacklist'' [] False ''8'',
        Some (PathError ''no such file or directory'')) \<and>
   Hosts (fst (InitHosts (\<lambda>p. Inl ''no such file or directory'')
     (main_Redirector '':8080'' '':8081'' ''blacklist'' [] False ''8''))) = [] \<and>
   IsDenied (fst (InitHosts (\<lambda>p. Inl ''no such file or directory'')
     (main_Redirector '':8080'' '':8081'' ''blacklist'' [] False ''8''))) ''example.com'' 9
     = Inl IndexOutOfRange"
proof -
  let ?fs = "\<lambda>p :: string. (Inl ''no such file or directory'' :: string + File)"
  let ?r = "main_Redirector '':8080'' '':8081'' ''blacklist'' [] False ''8''"
  have i: "InitHosts ?fs ?r = (?r, Some (PathError ''no such file or directory''))"
    by (rule InitHosts_open_fails) simp
  have h: "Hosts ?r = []" by (simp add: main_Redirector_def)
  have d: "IsDenied ?r ''example.com'' 9 = Inl IndexOutOfRange"
    by (simp add: IsDenied_def main_Redirector_def main_Hours_def)
  show ?thesis using i h d by simp
qed

text \<open>
  Claim C5 says that an empty line of the blacklist file gives a pattern that matches
  nothing, so that a file of empty lines blocks no host. With a blacklist file that is one
  empty line, block mode on and no \<open>-hours\<close> flag, \<open>r.Hosts\<close> is the one empty
  pattern, \<open>strings.Contains\<close> finds it in the host, and \<open>IsDenied\<close> returns true.
\<close>

theorem empty_line_counterexample:
  "Hosts (fst (InitHosts (\<lambda>p. Inr (File [CHR 0x0A] None))
      (main_Redirector '':8080'' '':8081'' ''blacklist'' [] True ''''))) = [[]] \<and>
   Contains ''example.com'' [] \<and>
   IsDenied (fst (InitHosts (\<lambda>p. Inr (File [CHR 0x0A] None))
      (main_Redirector '':8080'' '':8081'' ''blacklist'' [] True ''''))) ''example.com'' 9
     = Inr True"
proof -
  let ?fs = "\<lambda>p :: string. (Inr (File [CHR 0x0A] None) :: string + File)"
  let ?r = "main_Redirector '':8080'' '':8081'' ''blacklist'' [] True ''''"
  have a: "?fs (Blacklist ?r) = Inr (File [CHR 0x0A] None)" by simp
  have b: "\<forall>l \<in> set (Split [CHR 0x0A] CHR 0x0A). length l < 16 * 1024" by simp
  have "file_lines [CHR 0x0A] = [[]]" by (simp add: file_lines_def chomp_def)
  then have "InitHosts ?fs ?r = (?r\<lparr>Hosts := [[]]\<rparr>, None)"
    using InitHosts_reads_lines [of ?fs ?r "[CHR 0x0A]", OF a b]
    by (simp add: main_Redirector_def)
  then show ?thesis by (simp add: IsDenied_def main_Redirector_def main_Hours_def)
qed

text \<open>
  Claim C5, amended: a blacklist file of \<open>n > 0\<close> empty lines adds \<open>n\<close> empty
  patterns; the empty pattern occurs in every host, so every host counts as matched, and
  on every hour-window configuration whose non-empty tokens all hold a dash
  \<open>IsDenied\<close> returns for it whether block mode, a window or the clocking flag holds.
\<close>

theorem empty_pattern_matches_every_host:
  assumes "fs (Blacklist r) = Inr (File (replicate n (CHR 0x0A)) None)" and "0 < n"
  shows "Hosts (fst (InitHosts fs r)) = Hosts r @ replicate n [] \<and>
         Contains host [] \<and>
         found_loop host (Hosts (fst (InitHosts fs r))) False \<and>
         ((\<forall>t \<in> set (Hours r). t = [] \<or> CHR ''-'' \<in> set t) \<longrightarrow>
          IsDenied (fst (InitHosts fs r)) host h =
            Inr (Blockmode r
                 \<or> (\<exists>t \<in> set (Hours r). \<exists>start stop.
                       t \<noteq> [] \<and> token_window t = Some (start, stop) \<and> start \<le> h \<and> h \<le> stop)
                 \<or> Clocking r))"
proof -
  have short: "\<forall>l \<in> set (Split (replicate n (CHR 0x0A)) CHR 0x0A). length l < 16 * 1024"
    by (simp add: Split_replicate_sep del: replicate.simps)
  have i: "InitHosts fs r = (r\<lparr>Hosts := Hosts r @ replicate n []\<rparr>, None)"
    using InitHosts_reads_lines [of fs r "replicate n (CHR 0x0A)", OF assms(1) short]
    by (simp add: file_lines_empty_lines)
  have c: "Contains host []" by (cases host) simp_all
  have e: "[] \<in> set (replicate n ([] :: string))" using assms(2) by simp
  have f: "found_loop host (Hosts r @ replicate n []) False"
    unfolding found_loop_iff using c e by auto
  have m: "\<exists>p \<in> set (Hosts r @ replicate n []). \<exists>u v. host = u @ p @ v"
    using e by (intro bexI [of _ "[]"]) auto
  have d: "IsDenied (r\<lparr>Hosts := Hosts r @ replicate n []\<rparr>) host h =
           Inr (Blockmode r
                \<or> (\<exists>t \<in> set (Hours r). \<exists>start stop.
                      t \<noteq> [] \<and> token_window t = Some (start, stop) \<and> start \<le> h \<and> h \<le> stop)
                \<or> Clocking r)"
    if "\<forall>t \<in> set (Hours r). t = [] \<or> CHR ''-'' \<in> set t"
  proof -
    have "\<forall>t \<in> set (Hours (r\<lparr>Hosts := Hosts r @ replicate n []\<rparr>)). t = [] \<or> CHR ''-'' \<in> set t"
      using that by simp
    then show ?thesis using m by (simp add: IsDenied_returns)
  qed
  show ?thesis using i c f d by simp
qed

theorem empty_pattern_matches_every_host_witness:
  "Hosts (fst (InitHosts (\<lambda>p. Inr (File [CHR 0x0A, CHR 0x0A] None))
      (main_Redirector '':8080'' '':8081'' ''blacklist'' [] True []))) = [[], []] \<and>
   found_loop ''golang.org''
     (Hosts (fst (InitHosts (\<lambda>p. Inr (File [CHR 0x0A, CHR 0x0A] None))
        (main_Redirector '':8080'' '':8081'' ''blacklist'' [] True [])))) False \<and>
   IsDenied (fst (InitHosts (\<lambda>p. Inr (File [CHR 0x0A, CHR 0x0A] None))
      (main_Redirector '':8080'' '':8081'' ''blacklist'' [] True []))) ''golang.org'' 23
     = Inr True"
proof -
  let ?fs = "\<lambda>p :: string. (Inr (File [CHR 0x0A, CHR 0x0A] None) :: string + File)"
  let ?r = "main_Redirector '':8080'' '':8081'' ''blacklist'' [] True []"
  have n: "replicate 2 (CHR 0x0A) = [CHR 0x0A, CHR 0x0A]" by (simp add: numeral_2_eq_2)
  have a: "?fs (Blacklist ?r) = Inr (File (replicate 2 (CHR 0x0A)) None)" by (simp add: n)
  have b: "(0::nat) < 2" by simp
  have c: "\<forall>t \<in> set (Hours ?r). t = [] \<or> CHR ''-'' \<in> set t"
    by (simp add: main_Redirector_def main_Hours_def)
  note t = empty_pattern_matches_every_host [of ?fs ?r 2 "''golang.org''" 23, OF a b]
  have h: "Hosts ?r @ replicate 2 [] = [[], []]"
    by (simp add: main_Redirector_def numeral_2_eq_2)
  have w1: "Hosts (fst (InitHosts ?fs ?r)) = [[], []]"
    using conjunct1 [OF t] h by (rule trans)
  have w2: "found_loop ''golang.org'' (Hosts (fst (InitHosts ?fs ?r))) False"
    by (rule conjunct1 [OF conjunct2 [OF conjunct2 [OF t]]])
  have bm: "Blockmode ?r" by (simp add: main_Redirector_def)
  have w3: "IsDenied (fst (InitHosts ?fs ?r)) ''golang.org'' 23 = Inr True"
    using mp [OF conjunct2 [OF conjunct2 [OF conjunct2 [OF t]]] c] bm by simp
  show ?thesis using w1 w2 w3 by (intro conjI)
qed

section \<open>Claims about the clock watcher\<close>

lemma open_clock_marker_open:
  "Contains l ''CLOCK:'' \<Longrightarrow> \<not> Contains l ''--'' \<Longrightarrow> open_clock_marker l"
proof -
  assume c: "Contains l ''CLOCK:''" and d: "\<not> Contains l ''--''"
  have "\<not> (\<exists>a b c d. l = a @ ''CLOCK:'' @ b @ ''--'' @ c @ ''=>'' @ d)"
  proof
    assume "\<exists>a b c d. l = a @ ''CLOCK:'' @ b @ ''--'' @ c @ ''=>'' @ d"
    then obtain a b c d where "l = a @ ''CLOCK:'' @ b @ ''--'' @ c @ ''=>'' @ d" by blast
    then have "l = (a @ ''CLOCK:'' @ b) @ ''--'' @ (c @ ''=>'' @ d)" by simp
    then have "Contains l ''--''" unfolding Contains_iff by blast
    then show False using d by simp
  qed
  then show ?thesis using c by (simp add: open_clock_marker_def Contains_iff)
qed

lemma open_clock_marker_closed:
  "l = a @ ''CLOCK:'' @ b @ ''--'' @ c @ ''=>'' @ d \<Longrightarrow> \<not> open_clock_marker l"
  unfolding open_clock_marker_def by blast

lemma open_clock_marker_none: "\<not> Contains l ''CLOCK:'' \<Longrightarrow> \<not> open_clock_marker l"
  by (simp add: open_clock_marker_def Contains_iff)

lemma open_clock_marker_patterns:
  "CHR 0x0A \<notin> set l \<Longrightarrow>
   (MatchString pattern_clock l \<and> \<not> MatchString pattern_ended l) = open_clock_marker l"
  using Visit_line_marker [of l "\<lparr>Hosts = [], Clocking = False, ProxyAddr = [], WebAddr = [],
      Hours = [], OrgDir = [], Blacklist = [], Blockmode = False\<rparr>"]
  by (auto simp: Visit_line_def split: if_splits)

lemma Walk_is_scan:
  "lstat_succeeds tree \<Longrightarrow> Walk tree root (Visit fs) r = scan_files fs (tree_files root tree) r"
proof -
  assume l: "lstat_succeeds tree"
  show ?thesis
  proof (cases "scan_files fs (tree_files root tree) r")
    case (Inl x)
    then show ?thesis using l by (simp add: Walk_def walk_is_scan)
  next
    case (Inr res)
    obtain r1 err where res: "res = (r1, err)" by (cases res)
    have "err \<noteq> Some SkipDir" using scan_files_err Inr res by blast
    then show ?thesis using l Inr res by (simp add: Walk_def walk_is_scan)
  qed
qed

lemma Walk_stops:
  assumes "lstat_succeeds tree"
    and "tree_files (OrgDir r) tree = before @ p # after"
    and "\<forall>q \<in> set (org_files before). read_to_end fs q"
    and "Contains p ''.org''" and "fs p = Inl msg"
  shows "Walk tree (OrgDir r) (Visit fs) (r\<lparr>Clocking := False\<rparr>) =
           Inr (r\<lparr>Clocking := list_ex (file_has_open_marker fs) (org_files before)\<rparr>,
                Some (PathError msg))"
  using scan_files_stops [of before fs p msg after "r\<lparr>Clocking := False\<rparr>", OF assms(3,4,5)]
  by (simp add: Walk_is_scan [OF assms(1)] assms(2))

lemma Join_cleans:
  "Join ''org'' ''a.org'' = ''org/a.org'' \<and> Join ''org/'' ''a.org'' = ''org/a.org'' \<and>
   Join ''.'' ''a.org'' = ''a.org'' \<and> Join ''x.org/../notes'' ''a.txt'' = ''notes/a.txt'' \<and>
   Join ''/'' ''a.org'' = ''/a.org'' \<and> Join [] ''a.org'' = ''a.org''"
  by (simp add: Join_def Clean_def Clean_step_def)

lemma example_tree_files:
  "lstat_succeeds example_tree \<and>
   tree_files ''org'' example_tree = [''org/a.org'', ''org/sub/c.org'', ''org/z.org'', ''org/z.txt''] \<and>
   org_files [''org/a.org'', ''org/sub/c.org'', ''org/z.org'', ''org/z.txt'']
     = [''org/a.org'', ''org/sub/c.org'', ''org/z.org'']"
  by (simp add: example_tree_def Join_def Clean_def Clean_step_def org_files_def
      less_eq_char_def less_char_def)

lemma example_lines:
  "open_clock_marker open_line" "\<not> open_clock_marker closed_line"
  "\<not> open_clock_marker ''* TODO write the report''"
proof -
  show "open_clock_marker open_line"
    by (rule open_clock_marker_open) (simp_all add: open_line_def)
  have "closed_line = [] @ ''CLOCK:'' @ '' [2024-01-01 09:00]'' @ ''--'' @ ''[2024-01-01 10:00] ''
          @ ''=>'' @ ''  1:00''"
    by (simp add: closed_line_def)
  then show "\<not> open_clock_marker closed_line" by (rule open_clock_marker_closed)
  show "\<not> open_clock_marker ''* TODO write the report''"
    by (rule open_clock_marker_none) simp
qed

lemma text_file_lines:
  "list_all (\<lambda>l. CHR 0x0A \<notin> set l \<and> (l = [] \<or> last l \<noteq> CHR 0x0D)) ls \<Longrightarrow>
   file_lines (concat (map (\<lambda>l. l @ [CHR 0x0A]) ls)) = ls \<and>
   Split (concat (map (\<lambda>l. l @ [CHR 0x0A]) ls)) CHR 0x0A = ls @ [[]]"
proof (induction ls)
  case Nil
  then show ?case by (simp add: file_lines_def)
next
  case (Cons l ls)
  then have l: "CHR 0x0A \<notin> set l" "chomp l = l" by (auto simp: chomp_def)
  then show ?case using Cons by (simp add: file_lines_line Split_at_sep)
qed

lemma text_file_read_to_end:
  assumes "fs p = text_file ls"
    and "list_all (\<lambda>l. CHR 0x0A \<notin> set l \<and> (l = [] \<or> last l \<noteq> CHR 0x0D)) ls"
    and "list_all (\<lambda>l. length l < 16 * 1024) ls"
  shows "read_to_end fs p \<and> file_has_open_marker fs p = list_ex open_clock_marker ls"
  using assms(1,3) text_file_lines [OF assms(2)]
  by (simp add: read_to_end_def file_has_open_marker_def text_file_def)

text \<open>
  Claim C2: after a complete scan cycle the published flag is true exactly when some line
  of some scanned file is an open clock marker, whatever the flag was before: the cycle
  sets it to false and \<open>Visit\<close> sets it to true at an open marker. A cycle is complete
  when every \<open>Lstat\<close> of the walk succeeds and every file with \<open>.org\<close> in its path
  opens and is read to its end. A line without a line feed, as \<open>ReadLine\<close> returns it,
  passes the test \<open>isClock && !isEnded\<close> of the two patterns exactly when it holds
  \<open>CLOCK:\<close> and is not of the shape \<open>CLOCK: ... -- ... => ...\<close>.
\<close>

theorem scan_cycle_publishes_open_markers:
  assumes "lstat_succeeds tree"
    and "\<forall>p \<in> set (org_files (tree_files (OrgDir r) tree)). read_to_end fs p"
  shows "IsClocking fs tree r =
           Inr (r\<lparr>Clocking :=
                    list_ex (file_has_open_marker fs) (org_files (tree_files (OrgDir r) tree))\<rparr>) \<and>
         (\<forall>l. CHR 0x0A \<notin> set l \<longrightarrow>
            Visit_line l r = (if open_clock_marker l then r\<lparr>Clocking := True\<rparr> else r) \<and>
            (MatchString pattern_clock l \<and> \<not> MatchString pattern_ended l) = open_clock_marker l)"
  using IsClocking_read_to_end [OF assms] Visit_line_marker open_clock_marker_patterns by simp

theorem scan_cycle_publishes_open_markers_witness:
  "IsClocking
     (example_fs (text_file [''* TODO write the report'', closed_line]) (text_file [open_line])
        (text_file [closed_line]))
     example_tree (main_Redirector '':8080'' '':8081'' ''blacklist'' ''org'' False '''')
   = Inr ((main_Redirector '':8080'' '':8081'' ''blacklist'' ''org'' False '''')
            \<lparr>Clocking := True\<rparr>) \<and>
   IsClocking
     (example_fs (text_file [''* TODO write the report'', closed_line]) (text_file [closed_line])
        (text_file [closed_line]))
     example_tree ((main_Redirector '':8080'' '':8081'' ''blacklist'' ''org'' False '''')
            \<lparr>Clocking := True\<rparr>)
   = Inr ((main_Redirector '':8080'' '':8081'' ''blacklist'' ''org'' False '''')
            \<lparr>Clocking := False\<rparr>)"
proof -
  let ?r = "main_Redirector '':8080'' '':8081'' ''blacklist'' ''org'' False ''''"
  let ?a = "text_file [''* TODO write the report'', closed_line]"
  let ?fs1 = "example_fs ?a (text_file [open_line]) (text_file [closed_line])"
  let ?fs2 = "example_fs ?a (text_file [closed_line]) (text_file [closed_line])"
  have dir: "OrgDir ?r = ''org''" "OrgDir (?r\<lparr>Clocking := True\<rparr>) = ''org''"
    by (simp_all add: main_Redirector_def)
  have a1: "read_to_end ?fs1 ''org/a.org'' \<and> \<not> file_has_open_marker ?fs1 ''org/a.org''"
    using text_file_read_to_end [of ?fs1 "''org/a.org''" "[''* TODO write the report'', closed_line]"]
      example_lines
    by (simp add: example_fs_def closed_line_def)
  have c1: "read_to_end ?fs1 ''org/sub/c.org'' \<and> file_has_open_marker ?fs1 ''org/sub/c.org''"
    using text_file_read_to_end [of ?fs1 "''org/sub/c.org''" "[open_line]"] example_lines
    by (simp add: example_fs_def open_line_def)
  have z1: "read_to_end ?fs1 ''org/z.org'' \<and> \<not> file_has_open_marker ?fs1 ''org/z.org''"
    using text_file_read_to_end [of ?fs1 "''org/z.org''" "[closed_line]"] example_lines
    by (simp add: example_fs_def closed_line_def)
  have a2: "read_to_end ?fs2 ''org/a.org'' \<and> \<not> file_has_open_marker ?fs2 ''org/a.org''"
    using text_file_read_to_end [of ?fs2 "''org/a.org''" "[''* TODO write the report'', closed_line]"]
      example_lines
    by (simp add: example_fs_def closed_line_def)
  have c2: "read_to_end ?fs2 ''org/sub/c.org'' \<and> \<not> file_has_open_marker ?fs2 ''org/sub/c.org''"
    using text_file_read_to_end [of ?fs2 "''org/sub/c.org''" "[closed_line]"] example_lines
    by (simp add: example_fs_def closed_line_def)
  have z2: "read_to_end ?fs2 ''org/z.org'' \<and> \<not> file_has_open_marker ?fs2 ''org/z.org''"
    using text_file_read_to_end [of ?fs2 "''org/z.org''" "[closed_line]"] example_lines
    by (simp add: example_fs_def closed_line_def)
  have t: "lstat_succeeds example_tree" using example_tree_files by simp
  have h1: "\<forall>p \<in> set (org_files (tree_files (OrgDir ?r) example_tree)). read_to_end ?fs1 p"
    using a1 c1 z1 by (simp add: dir example_tree_files)
  have h2: "\<forall>p \<in> set (org_files (tree_files (OrgDir (?r\<lparr>Clocking := True\<rparr>)) example_tree)).
              read_to_end ?fs2 p"
    using a2 c2 z2 by (simp add: dir example_tree_files)
  have 1: "IsClocking ?fs1 example_tree ?r = Inr (?r\<lparr>Clocking := True\<rparr>)"
    using scan_cycle_publishes_open_markers [OF t h1] a1 c1 z1
    by (simp add: dir example_tree_files)
  have 2: "IsClocking ?fs2 example_tree (?r\<lparr>Clocking := True\<rparr>) = Inr (?r\<lparr>Clocking := False\<rparr>)"
    using scan_cycle_publishes_open_markers [OF t h2] a2 c2 z2
    by (simp add: dir example_tree_files)
  show ?thesis using 1 2 by (rule conjI)
qed

text \<open>
  Claim C6 says that an error opening one file makes the walk skip that file only, so that
  open markers in the files after it are still seen in the same cycle. In the example
  tree \<open>a.org\<close> cannot be opened and \<open>sub/c.org\<close>, which the walk would visit next,
  holds an open marker: the cycle ends with the flag false.
\<close>

theorem open_error_counterexample:
  "tree_files ''org'' example_tree = [''org/a.org'', ''org/sub/c.org'', ''org/z.org'', ''org/z.txt''] \<and>
   example_fs (Inl ''permission denied'') (text_file [open_line]) (text_file [closed_line])
     ''org/a.org'' = Inl ''permission denied'' \<and>
   read_to_end
     (example_fs (Inl ''permission denied'') (text_file [open_line]) (text_file [closed_line]))
     ''org/sub/c.org'' \<and>
   file_has_open_marker
     (example_fs (Inl ''permission denied'') (text_file [open_line]) (text_file [closed_line]))
     ''org/sub/c.org'' \<and>
   IsClocking
     (example_fs (Inl ''permission denied'') (text_file [open_line]) (text_file [closed_line]))
     example_tree (main_Redirector '':8080'' '':8081'' ''blacklist'' ''org'' False '''')
   = Inr ((main_Redirector '':8080'' '':8081'' ''blacklist'' ''org'' False '''')
            \<lparr>Clocking := False\<rparr>)"
proof -
  let ?r = "main_Redirector '':8080'' '':8081'' ''blacklist'' ''org'' False ''''"
  let ?fs = "example_fs (Inl ''permission denied'') (text_file [open_line]) (text_file [closed_line])"
  have dir: "OrgDir ?r = ''org''" by (simp add: main_Redirector_def)
  have a: "?fs ''org/a.org'' = Inl ''permission denied''" by (simp add: example_fs_def)
  have c: "read_to_end ?fs ''org/sub/c.org'' \<and> file_has_open_marker ?fs ''org/sub/c.org''"
    using text_file_read_to_end [of ?fs "''org/sub/c.org''" "[open_line]"] example_lines
    by (simp add: example_fs_def open_line_def)
  have t: "lstat_succeeds example_tree" using example_tree_files by simp
  have tf: "tree_files (OrgDir ?r) example_tree
              = [] @ ''org/a.org'' # [''org/sub/c.org'', ''org/z.org'', ''org/z.txt'']"
    using example_tree_files by (simp add: dir)
  have b: "\<forall>q \<in> set (org_files []). read_to_end ?fs q" by (simp add: org_files_def)
  have o: "Contains ''org/a.org'' ''.org''" by simp
  have "IsClocking ?fs example_tree ?r = Inr (?r\<lparr>Clocking := False\<rparr>)"
    using IsClocking_stops [of example_tree ?r "[]" "''org/a.org''" _ ?fs, OF t tf b o a]
    by (simp add: org_files_def)
  then show ?thesis using example_tree_files a c by simp
qed

text \<open>
  Claim C6, amended: \<open>Visit\<close> returns the error of \<open>os.Open\<close> to
  \<open>filepath.Walk\<close>, which ends the walk with it. The files before the failing one have
  been scanned and decide the published flag; no file after it is looked at in this cycle.
  \<open>IsClocking\<close> drops the error and returns.
\<close>

theorem open_error_ends_the_walk:
  assumes "lstat_succeeds tree"
    and "tree_files (OrgDir r) tree = before @ p # after"
    and "\<forall>q \<in> set (org_files before). read_to_end fs q"
    and "Contains p ''.org''" and "fs p = Inl msg"
  shows "Walk tree (OrgDir r) (Visit fs) (r\<lparr>Clocking := False\<rparr>) =
           Inr (r\<lparr>Clocking := list_ex (file_has_open_marker fs) (org_files before)\<rparr>,
                Some (PathError msg)) \<and>
         IsClocking fs tree r =
           Inr (r\<lparr>Clocking := list_ex (file_has_open_marker fs) (org_files before)\<rparr>)"
  using Walk_stops [OF assms] IsClocking_stops [OF assms] by simp

theorem open_error_ends_the_walk_witness:
  "IsClocking
     (example_fs (text_file [open_line]) (Inl ''permission denied'') (text_file [closed_line]))
     example_tree (main_Redirector '':8080'' '':8081'' ''blacklist'' ''org'' False '''')
   = Inr ((main_Redirector '':8080'' '':8081'' ''blacklist'' ''org'' False '''')
            \<lparr>Clocking := True\<rparr>) \<and>
   IsClocking
     (example_fs (text_file [closed_line]) (Inl ''permission denied'') (text_file [open_line]))
     example_tree (main_Redirector '':8080'' '':8081'' ''blacklist'' ''org'' False '''')
   = Inr ((main_Redirector '':8080'' '':8081'' ''blacklist'' ''org'' False '''')
            \<lparr>Clocking := False\<rparr>)"
proof -
  let ?r = "main_Redirector '':8080'' '':8081'' ''blacklist'' ''org'' False ''''"
  let ?fs1 = "example_fs (text_file [open_line]) (Inl ''permission denied'') (text_file [closed_line])"
  let ?fs2 = "example_fs (text_file [closed_line]) (Inl ''permission denied'') (text_file [open_line])"
  have dir: "OrgDir ?r = ''org''" by (simp add: main_Redirector_def)
  have t: "lstat_succeeds example_tree" using example_tree_files by simp
  have tf: "tree_files (OrgDir ?r) example_tree
              = [''org/a.org''] @ ''org/sub/c.org'' # [''org/z.org'', ''org/z.txt'']"
    using example_tree_files by (simp add: dir)
  have o: "Contains ''org/sub/c.org'' ''.org''" by simp
  have of: "org_files [''org/a.org''] = [''org/a.org'']" by (simp add: org_files_def)
  have a1: "read_to_end ?fs1 ''org/a.org'' \<and> file_has_open_marker ?fs1 ''org/a.org''"
    using text_file_read_to_end [of ?fs1 "''org/a.org''" "[open_line]"] example_lines
    by (simp add: example_fs_def open_line_def)
  have a2: "read_to_end ?fs2 ''org/a.org'' \<and> \<not> file_has_open_marker ?fs2 ''org/a.org''"
    using text_file_read_to_end [of ?fs2 "''org/a.org''" "[closed_line]"] example_lines
    by (simp add: example_fs_def closed_line_def)
  have c1: "?fs1 ''org/sub/c.org'' = Inl ''permission denied''" by (simp add: example_fs_def)
  have c2: "?fs2 ''org/sub/c.org'' = Inl ''permission denied''" by (simp add: example_fs_def)
  have b1: "\<forall>q \<in> set (org_files [''org/a.org'']). read_to_end ?fs1 q" using a1 by (simp add: of)
  have b2: "\<forall>q \<in> set (org_files [''org/a.org'']). read_to_end ?fs2 q" using a2 by (simp add: of)
  have 1: "IsClocking ?fs1 example_tree ?r = Inr (?r\<lparr>Clocking := True\<rparr>)"
    using open_error_ends_the_walk [of example_tree ?r "[''org/a.org'']" "''org/sub/c.org''" _ ?fs1,
        OF t tf b1 o c1] a1
    by (simp add: of)
  have 2: "IsClocking ?fs2 example_tree ?r = Inr (?r\<lparr>Clocking := False\<rparr>)"
    using open_error_ends_the_walk [of example_tree ?r "[''org/a.org'']" "''org/sub/c.org''" _ ?fs2,
        OF t tf b2 o c2] a2
    by (simp add: of)
  show ?thesis using 1 2 by (rule conjI)
qed

text \<open>
  Claim C10: for anything that is not a directory, \<open>Visit\<close> goes on to open and read
  the file exactly when \<open>.org\<close> occurs somewhere in the path, and returns at once
  otherwise. So \<open>notes.orgbak\<close> and \<open>work.org/todo.txt\<close>, which do not end in
  \<open>.org\<close>, are scanned, and \<open>notes.txt\<close> is skipped. A directory is never read as a
  file, whatever its name.
\<close>

theorem org_filter_is_substring_test:
  "Visit fs r path (Some (FileInfo False)) e =
     (if (\<exists>u v. path = u @ ''.org'' @ v) then Inr (Visit_file fs r path) else Inr (r, None)) \<and>
   \<not> suffix ''.org'' ''notes.orgbak'' \<and>
   Visit fs r ''notes.orgbak'' (Some (FileInfo False)) e = Inr (Visit_file fs r ''notes.orgbak'') \<and>
   \<not> suffix ''.org'' (Join ''work.org'' ''todo.txt'') \<and>
   Visit fs r (Join ''work.org'' ''todo.txt'') (Some (FileInfo False)) e
     = Inr (Visit_file fs r (Join ''work.org'' ''todo.txt'')) \<and>
   Visit fs r ''notes.txt'' (Some (FileInfo False)) e = Inr (r, None) \<and>
   Visit fs r ''work.org'' (Some (FileInfo True)) e = Inr (r, None)"
proof -
  have "Visit fs r path (Some (FileInfo False)) e =
     (if (\<exists>u v. path = u @ ''.org'' @ v) then Inr (Visit_file fs r path) else Inr (r, None))"
    by (simp only: Visit_not_directory Contains_iff)
  moreover have "\<not> suffix ''.org'' ''notes.orgbak''"
    by (simp add: suffix_def)
  moreover have "\<not> suffix ''.org'' (Join ''work.org'' ''todo.txt'')"
    by (simp add: suffix_def Join_def Clean_def Clean_step_def)
  ultimately show ?thesis
    by (simp add: Visit_not_directory Visit_directory Join_def Clean_def Clean_step_def)
qed

end
